theory Spec2Isabelle
  imports Main "HOL-Library.Multiset"
begin

section \<open>Data model\<close>

text \<open>
  The indexed Merkle tree of \<^verbatim>\<open>indexed_merkle_tree.hpp\<close> and its two implementation
  files: the dirty-tracking implementation (the one the header declares, with
  \<^verbatim>\<open>hstats_\<close>, \<^verbatim>\<open>level_str_idxs_\<close> and \<^verbatim>\<open>build_hashes_from_leaves\<close>) and the
  full-rehash implementation \<^verbatim>\<open>indexed_merkle_tree.cpp\<close> (with \<^verbatim>\<open>rehash\<close>).

  Modelled from the spec: the field-element type \<^verbatim>\<open>barretenberg::fr\<close> is not part of the
  sources. A field element is represented by its canonical representative, a natural
  number; \<^verbatim>\<open>(uint64_t)x\<close> on a field element is its low 64 bits.
\<close>

type_synonym fr = nat

definition to_uint64 :: "fr \<Rightarrow> nat" where
  "to_uint64 x = x mod 2 ^ 64"

text \<open>
  Modelled from the spec: \<^verbatim>\<open>leaf.hpp\<close> is not part of the sources. A leaf is the
  pre-image \<^verbatim>\<open>{value, nextIndex, nextValue}\<close>; \<^verbatim>\<open>value\<close> is written \<open>leaf_value\<close>.
  \<^verbatim>\<open>static_cast<size_t>\<close> of a \<^verbatim>\<open>nextIndex\<close> keeps its low 64 bits.
\<close>

record leaf =
  leaf_value :: fr
  nextIndex :: nat
  nextValue :: fr

definition zero_leaf :: leaf where
  "zero_leaf = \<lparr>leaf_value = 0, nextIndex = 0, nextValue = 0\<rparr>"

definition to_size_t :: "nat \<Rightarrow> nat" where
  "to_size_t n = n mod 2 ^ 64"

text \<open>
  The hash primitives of \<^verbatim>\<open>stdlib/merkle_tree/hash.hpp\<close> and \<^verbatim>\<open>leaf::hash\<close> are not part
  of the sources; they are parameters of every function that hashes.
\<close>

record primitives =
  leaf_hash :: "leaf \<Rightarrow> fr"
  compress_pair :: "fr \<Rightarrow> fr \<Rightarrow> fr"
  compress_native :: "fr \<Rightarrow> fr \<Rightarrow> fr"

datatype node_status = DIRTY | CLEAN

text \<open>
  The members of \<^verbatim>\<open>class IndexedMerkleTree\<close>; the trailing underscore of the C++ names
  is dropped.
\<close>

record imt =
  depth :: nat
  total_size :: nat
  root :: fr
  leaves :: "leaf list"
  hashes :: "fr list"
  level_str_idxs :: "nat list"
  hstats :: "node_status list"

text \<open>
  What the C++ leaves undefined is a value of the model: a failed \<^verbatim>\<open>ASSERT\<close>, a shift of
  an \<^verbatim>\<open>int\<close> by at least its width, a vector access beyond the size.
\<close>

datatype error = AssertionFailed | UndefinedShift | OutOfBounds

type_synonym 'a result = "error + 'a"

type_synonym fr_hash_path = "(fr \<times> fr) list"

section \<open>The dirty-tracking implementation\<close>

subsection \<open>build_hashes_from_leaves\<close>

text \<open>
  The inner loop of \<^verbatim>\<open>build_hashes_from_leaves\<close>: it scans the whole table
  \<^verbatim>\<open>level_str_idxs_\<close> and keeps the last entry that is at most \<open>i\<close>, with its predecessor.
\<close>

definition locate_step :: "nat list \<Rightarrow> nat \<Rightarrow> nat \<Rightarrow> nat \<times> nat \<Rightarrow> nat \<times> nat" where
  "locate_step lsis i l s =
     (let lsi = lsis ! l in
      if i \<ge> lsi
      then (lsi, if l > 0 then lsis ! (l - 1) else snd s)
      else s)"

definition locate :: "nat list \<Rightarrow> nat \<Rightarrow> nat \<times> nat" where
  "locate lsis i = fold (locate_step lsis i) [0..<length lsis] (0, 0)"

text \<open>
  One iteration of the outer loop, at node \<open>i\<close>. Index arithmetic is on \<^verbatim>\<open>size_t\<close>, so it
  wraps at \<open>2 ^ 64\<close>; \<^verbatim>\<open>i - level_str_idx\<close> cannot wrap, since \<open>locate\<close> returns an entry
  that is at most \<open>i\<close>.
\<close>

definition build_step ::
  "primitives \<Rightarrow> nat list \<Rightarrow> nat \<Rightarrow> fr list \<times> node_status list
     \<Rightarrow> (fr list \<times> node_status list) result" where
  "build_step P lsis i s =
     (let hs = fst s; st = snd s;
          level_str_idx = fst (locate lsis i);
          prev_level_str_idx = snd (locate lsis i);
          in_level_idx = i - level_str_idx;
          rch_idx = (prev_level_str_idx + in_level_idx * 2) mod 2 ^ 64;
          lch_idx = (rch_idx + 1) mod 2 ^ 64
      in if rch_idx \<ge> length hs \<or> lch_idx \<ge> length hs then Inl OutOfBounds
         else if rch_idx \<ge> length st then Inl OutOfBounds
         else if st ! rch_idx \<noteq> DIRTY \<and> lch_idx \<ge> length st then Inl OutOfBounds
         else if st ! rch_idx = DIRTY \<or> st ! lch_idx = DIRTY
         then (if i \<ge> length hs \<or> lch_idx \<ge> length st \<or> i \<ge> length st then Inl OutOfBounds
               else Inr (hs[i := compress_pair P (hs ! rch_idx) (hs ! lch_idx)],
                         st[rch_idx := CLEAN, lch_idx := CLEAN, i := DIRTY]))
         else Inr (hs, st))"

fun build_loop ::
  "primitives \<Rightarrow> nat list \<Rightarrow> nat list \<Rightarrow> fr list \<times> node_status list
     \<Rightarrow> (fr list \<times> node_status list) result" where
  "build_loop P lsis [] s = Inr s"
| "build_loop P lsis (i # is) s =
     (case build_step P lsis i s of
        Inl e \<Rightarrow> Inl e
      | Inr s' \<Rightarrow> build_loop P lsis is s')"

definition build_hashes_from_leaves :: "primitives \<Rightarrow> imt \<Rightarrow> imt result" where
  "build_hashes_from_leaves P t =
     (case build_loop P (level_str_idxs t) [total_size t..<length (hashes t)]
             (hashes t, hstats t) of
        Inl e \<Rightarrow> Inl e
      | Inr s \<Rightarrow> Inr (t\<lparr>hashes := fst s, hstats := snd s\<rparr>))"

subsection \<open>init_hashes and calculate_root\<close>

fun fill_loop :: "fr \<Rightarrow> nat list \<Rightarrow> fr list \<Rightarrow> fr list result" where
  "fill_loop z [] hs = Inr hs"
| "fill_loop z (i # is) hs =
     (if i < length hs then fill_loop z is (hs[i := z]) else Inl OutOfBounds)"

definition init_hashes :: "primitives \<Rightarrow> imt \<Rightarrow> imt result" where
  "init_hashes P t =
     (let zleaf_hash = leaf_hash P zero_leaf in
      case fill_loop zleaf_hash [0..<total_size t] (hashes t) of
        Inl e \<Rightarrow> Inl e
      | Inr hs \<Rightarrow> build_hashes_from_leaves P (t\<lparr>hashes := hs\<rparr>))"

definition calculate_root :: "primitives \<Rightarrow> imt \<Rightarrow> imt result" where
  "calculate_root P t =
     (let hs = length (hashes t) in
      if hs < 2 then Inl OutOfBounds
      else Inr (t\<lparr>root := compress_native P (hashes t ! (hs - 2)) (hashes t ! (hs - 1))\<rparr>))"

subsection \<open>The constructor\<close>

text \<open>
  \<^verbatim>\<open>1 << k\<close> in the loop that fills \<^verbatim>\<open>level_str_idxs_\<close> shifts the \<^verbatim>\<open>int\<close> constant 1:
  the result is an \<^verbatim>\<open>int\<close> of 32 bits. For \<open>k < 31\<close> it is \<open>2 ^ k\<close>, for \<open>k = 31\<close> the sign
  bit is set and the value is \<open>- 2 ^ 31\<close>, and a shift by 32 or more is undefined. The
  sum \<^verbatim>\<open>prev + (1 << k)\<close> converts the \<^verbatim>\<open>int\<close> to \<^verbatim>\<open>size_t\<close>, that is modulo \<open>2 ^ 64\<close>.
\<close>

definition shl_int :: "nat \<Rightarrow> int option" where
  "shl_int k = (if k < 31 then Some (2 ^ k) else if k = 31 then Some (- (2 ^ 31)) else None)"

fun level_loop :: "nat \<Rightarrow> nat list \<Rightarrow> nat list \<Rightarrow> nat list result" where
  "level_loop d [] tbl = Inr tbl"
| "level_loop d (i # is) tbl =
     (if i - 1 \<ge> length tbl then Inl OutOfBounds
      else let prev = tbl ! (i - 1) in
        case shl_int (d - (i - 1)) of
          None \<Rightarrow> Inl UndefinedShift
        | Some x \<Rightarrow> level_loop d is (tbl @ [nat ((int prev + x) mod 2 ^ 64)]))"

text \<open>
  \<^verbatim>\<open>IndexedMerkleTree::IndexedMerkleTree(size_t depth)\<close>. \<^verbatim>\<open>resize\<close> value-initialises
  the new elements (zero); \<^verbatim>\<open>root_\<close> is written by \<^verbatim>\<open>calculate_root\<close> before it is read.
\<close>

definition IndexedMerkleTree :: "primitives \<Rightarrow> nat \<Rightarrow> imt result" where
  "IndexedMerkleTree P d =
     (if \<not> (d \<ge> 1 \<and> d \<le> 32) then Inl AssertionFailed
      else let ts = 2 ^ d in
        case level_loop d [1..<d] [0] of
          Inl e \<Rightarrow> Inl e
        | Inr tbl \<Rightarrow>
            (case init_hashes P
                    \<lparr>depth = d, total_size = ts, root = 0,
                     leaves = [zero_leaf],
                     hashes = replicate (ts * 2 - 2) 0,
                     level_str_idxs = tbl,
                     hstats = replicate (ts * 2 - 2) DIRTY\<rparr> of
               Inl e \<Rightarrow> Inl e
             | Inr t \<Rightarrow> calculate_root P t))"

subsection \<open>get_hash_path\<close>

definition pair_at :: "fr list \<Rightarrow> nat \<Rightarrow> (fr \<times> fr) result" where
  "pair_at hs idx =
     (if idx mod 2 \<noteq> 0
      then (if idx < length hs then Inr (hs ! (idx - 1), hs ! idx) else Inl OutOfBounds)
      else (if idx + 1 < length hs then Inr (hs ! idx, hs ! (idx + 1)) else Inl OutOfBounds))"

fun path_loop ::
  "fr list \<Rightarrow> nat list \<Rightarrow> nat list \<Rightarrow> nat \<Rightarrow> fr_hash_path \<Rightarrow> fr_hash_path result" where
  "path_loop hs lsis [] idx path = Inr path"
| "path_loop hs lsis (l # ls) idx path =
     (if 1 \<ge> length lsis then Inl OutOfBounds
      else let parent_idx = idx div 2;
               idx' = (lsis ! 1 + parent_idx) mod 2 ^ 64
           in case pair_at hs idx' of
                Inl e \<Rightarrow> Inl e
              | Inr pr \<Rightarrow>
                  (if l < length path then path_loop hs lsis ls idx' (path[l := pr])
                   else Inl OutOfBounds))"

text \<open>
  \<^verbatim>\<open>get_hash_path\<close> is not a \<^verbatim>\<open>const\<close> member: the model returns the tree with the path.
\<close>

definition get_hash_path :: "imt \<Rightarrow> nat \<Rightarrow> (fr_hash_path \<times> imt) result" where
  "get_hash_path t idx =
     (let path = replicate (depth t) (0, 0) in
      if 0 \<ge> length path then Inl OutOfBounds
      else case pair_at (hashes t) idx of
             Inl e \<Rightarrow> Inl e
           | Inr pr \<Rightarrow>
               (case path_loop (hashes t) (level_str_idxs t) [1..<depth t] idx (path[0 := pr]) of
                  Inl e \<Rightarrow> Inl e
                | Inr p \<Rightarrow> Inr (p, t)))"

subsection \<open>update_element\<close>

text \<open>
  The \<^verbatim>\<open>while (true)\<close> loop of \<^verbatim>\<open>update_element\<close>. It leaves by \<^verbatim>\<open>return 0\<close> (\<open>Duplicate\<close>)
  or by \<^verbatim>\<open>break\<close>, after it has rewritten the leaf at \<open>idx\<close> (\<open>Found\<close>, with \<open>idx\<close>,
  \<open>next_idx\<close>, \<open>next_value\<close> and the leaves); it may also run forever, which is \<open>None\<close>.
\<close>

datatype walk = Duplicate | Found nat nat fr "leaf list"

partial_function (option) insert_loop ::
  "leaf list \<Rightarrow> fr \<Rightarrow> nat \<Rightarrow> nat \<Rightarrow> walk result option" where
  "insert_loop ls val cur_idx idx =
     (if idx \<ge> length ls then Some (Inl OutOfBounds)
      else if to_uint64 (nextValue (ls ! idx)) = to_uint64 val then Some (Inr Duplicate)
      else if to_uint64 (nextValue (ls ! idx)) > to_uint64 val \<or> nextValue (ls ! idx) = 0
      then Some (Inr (Found idx (nextIndex (ls ! idx)) (nextValue (ls ! idx))
                        (ls[idx := (ls ! idx)\<lparr>nextValue := val, nextIndex := cur_idx\<rparr>])))
      else insert_loop ls val cur_idx (to_size_t (nextIndex (ls ! idx))))"

declare insert_loop.simps [code]

text \<open>The statements of \<^verbatim>\<open>update_element\<close> after the loop.\<close>

definition insert_finish ::
  "primitives \<Rightarrow> imt \<Rightarrow> fr \<Rightarrow> nat \<Rightarrow> nat \<Rightarrow> nat \<Rightarrow> fr \<Rightarrow> leaf list \<Rightarrow> (fr \<times> imt) result" where
  "insert_finish P t val cur_idx idx next_idx next_value ls =
     (let ls' = ls @ [\<lparr>leaf_value = val, nextIndex = next_idx, nextValue = next_value\<rparr>] in
      if cur_idx \<ge> length ls' \<or> idx \<ge> length ls'
         \<or> cur_idx \<ge> length (hashes t) \<or> idx \<ge> length (hashes t)
         \<or> cur_idx \<ge> length (hstats t) \<or> idx \<ge> length (hstats t)
      then Inl OutOfBounds
      else let hs = (hashes t)[cur_idx := leaf_hash P (ls' ! cur_idx)];
               hs' = hs[idx := leaf_hash P (ls' ! idx)];
               st = (hstats t)[idx := DIRTY, cur_idx := DIRTY]
           in case build_hashes_from_leaves P (t\<lparr>leaves := ls', hashes := hs', hstats := st\<rparr>) of
                Inl e \<Rightarrow> Inl e
              | Inr t' \<Rightarrow>
                  (case calculate_root P t' of
                     Inl e \<Rightarrow> Inl e
                   | Inr t'' \<Rightarrow> Inr (0, t'')))"

definition update_element :: "primitives \<Rightarrow> imt \<Rightarrow> fr \<Rightarrow> (fr \<times> imt) result option" where
  "update_element P t val =
     (let cur_idx = length (leaves t) in
      if cur_idx \<ge> total_size t then Some (Inr (0, t))
      else case insert_loop (leaves t) val cur_idx 0 of
             None \<Rightarrow> None
           | Some (Inl e) \<Rightarrow> Some (Inl e)
           | Some (Inr Duplicate) \<Rightarrow> Some (Inr (0, t))
           | Some (Inr (Found idx next_idx next_value ls)) \<Rightarrow>
               Some (insert_finish P t val cur_idx idx next_idx next_value ls))"

text \<open>Values inserted one at a time, each call on the tree the previous one left.\<close>

fun update_elements :: "primitives \<Rightarrow> imt \<Rightarrow> fr list \<Rightarrow> imt result option" where
  "update_elements P t [] = Some (Inr t)"
| "update_elements P t (v # vs) =
     (case update_element P t v of
        None \<Rightarrow> None
      | Some (Inl e) \<Rightarrow> Some (Inl e)
      | Some (Inr r) \<Rightarrow> update_elements P (snd r) vs)"

section \<open>The full-rehash implementation\<close>

text \<open>
  \<^verbatim>\<open>indexed_merkle_tree.cpp\<close> keeps no flags and no level table: \<^verbatim>\<open>init_hashes\<close>, \<^verbatim>\<open>rehash\<close>
  and \<^verbatim>\<open>get_hash_path\<close> each build the table in a local vector, \<^verbatim>\<open>update_element\<close> writes
  the two leaf hashes only, and \<^verbatim>\<open>get_hash_path\<close> recomputes every internal node and the
  root before it reads the path. Its names carry the suffix \<open>_rehash\<close> (fields: \<open>_r\<close>).
\<close>

record imt_rehash =
  depth_r :: nat
  total_size_r :: nat
  root_r :: fr
  leaves_r :: "leaf list"
  hashes_r :: "fr list"

definition rehash_step :: "primitives \<Rightarrow> nat list \<Rightarrow> nat \<Rightarrow> fr list \<Rightarrow> fr list result" where
  "rehash_step P lsis i hs =
     (let level_str_idx = fst (locate lsis i);
          prev_level_str_idx = snd (locate lsis i);
          in_level_idx = i - level_str_idx;
          ch_base_idx = (prev_level_str_idx + in_level_idx * 2) mod 2 ^ 64
      in if ch_base_idx \<ge> length hs \<or> (ch_base_idx + 1) mod 2 ^ 64 \<ge> length hs \<or> i \<ge> length hs
         then Inl OutOfBounds
         else Inr (hs[i := compress_pair P (hs ! ch_base_idx)
                              (hs ! ((ch_base_idx + 1) mod 2 ^ 64))]))"

fun rehash_loop :: "primitives \<Rightarrow> nat list \<Rightarrow> nat list \<Rightarrow> fr list \<Rightarrow> fr list result" where
  "rehash_loop P lsis [] hs = Inr hs"
| "rehash_loop P lsis (i # is) hs =
     (case rehash_step P lsis i hs of
        Inl e \<Rightarrow> Inl e
      | Inr hs' \<Rightarrow> rehash_loop P lsis is hs')"

text \<open>\<^verbatim>\<open>rehash(hashes)\<close>: the vector is passed by reference and comes back recomputed.\<close>

definition rehash :: "primitives \<Rightarrow> imt_rehash \<Rightarrow> fr list \<Rightarrow> fr list result" where
  "rehash P s hs =
     (case level_loop (depth_r s) [1..<depth_r s] [0] of
        Inl e \<Rightarrow> Inl e
      | Inr tbl \<Rightarrow> rehash_loop P tbl [total_size_r s..<length hs] hs)"

definition init_hashes_rehash :: "primitives \<Rightarrow> imt_rehash \<Rightarrow> fr list \<Rightarrow> fr list result" where
  "init_hashes_rehash P s hs =
     (let zleaf_hash = leaf_hash P zero_leaf in
      case fill_loop zleaf_hash [0..<total_size_r s] hs of
        Inl e \<Rightarrow> Inl e
      | Inr hs' \<Rightarrow>
          (case level_loop (depth_r s) [1..<depth_r s] [0] of
             Inl e \<Rightarrow> Inl e
           | Inr tbl \<Rightarrow> rehash_loop P tbl [total_size_r s..<length hs'] hs'))"

definition calculate_root_rehash :: "primitives \<Rightarrow> imt_rehash \<Rightarrow> fr list \<Rightarrow> imt_rehash result" where
  "calculate_root_rehash P s hs =
     (let n = length hs in
      if n < 2 then Inl OutOfBounds
      else Inr (s\<lparr>root_r := compress_native P (hs ! (n - 2)) (hs ! (n - 1))\<rparr>))"

definition IndexedMerkleTree_rehash :: "primitives \<Rightarrow> nat \<Rightarrow> imt_rehash result" where
  "IndexedMerkleTree_rehash P d =
     (if \<not> (d \<ge> 1 \<and> d \<le> 32) then Inl AssertionFailed
      else let ts = 2 ^ d;
               s = \<lparr>depth_r = d, total_size_r = ts, root_r = 0, leaves_r = [zero_leaf],
                    hashes_r = replicate (ts * 2 - 2) 0\<rparr>
           in case init_hashes_rehash P s (hashes_r s) of
                Inl e \<Rightarrow> Inl e
              | Inr hs \<Rightarrow> calculate_root_rehash P (s\<lparr>hashes_r := hs\<rparr>) hs)"

definition get_hash_path_rehash ::
  "primitives \<Rightarrow> imt_rehash \<Rightarrow> nat \<Rightarrow> (fr_hash_path \<times> imt_rehash) result" where
  "get_hash_path_rehash P s idx =
     (let path = replicate (depth_r s) (0, 0) in
      case rehash P s (hashes_r s) of
        Inl e \<Rightarrow> Inl e
      | Inr hs \<Rightarrow>
          (case calculate_root_rehash P (s\<lparr>hashes_r := hs\<rparr>) hs of
             Inl e \<Rightarrow> Inl e
           | Inr s' \<Rightarrow>
               (case level_loop (depth_r s') [1..<depth_r s'] [0] of
                  Inl e \<Rightarrow> Inl e
                | Inr tbl \<Rightarrow>
                    (case pair_at (hashes_r s') idx of
                       Inl e \<Rightarrow> Inl e
                     | Inr pr \<Rightarrow>
                         if 0 \<ge> length path then Inl OutOfBounds
                         else (case path_loop (hashes_r s') tbl [1..<depth_r s'] idx
                                      (path[0 := pr]) of
                                 Inl e \<Rightarrow> Inl e
                               | Inr p \<Rightarrow> Inr (p, s'))))))"

partial_function (option) insert_loop_rehash ::
  "leaf list \<Rightarrow> fr \<Rightarrow> nat \<Rightarrow> nat \<Rightarrow> walk result option" where
  "insert_loop_rehash ls val cur_idx idx =
     (if idx \<ge> length ls then Some (Inl OutOfBounds)
      else if to_uint64 (nextValue (ls ! idx)) \<ge> to_uint64 val \<or> nextValue (ls ! idx) = 0
      then (if to_uint64 (nextValue (ls ! idx)) = to_uint64 val then Some (Inr Duplicate)
            else Some (Inr (Found idx (nextIndex (ls ! idx)) (nextValue (ls ! idx))
                              (ls[idx := (ls ! idx)\<lparr>nextValue := val, nextIndex := cur_idx\<rparr>]))))
      else insert_loop_rehash ls val cur_idx (to_size_t (nextIndex (ls ! idx))))"

declare insert_loop_rehash.simps [code]

definition update_element_rehash ::
  "primitives \<Rightarrow> imt_rehash \<Rightarrow> fr \<Rightarrow> (fr \<times> imt_rehash) result option" where
  "update_element_rehash P s val =
     (let cur_idx = length (leaves_r s) in
      if cur_idx < total_size_r s
      then (case insert_loop_rehash (leaves_r s) val cur_idx 0 of
              None \<Rightarrow> None
            | Some (Inl e) \<Rightarrow> Some (Inl e)
            | Some (Inr Duplicate) \<Rightarrow> Some (Inr (0, s))
            | Some (Inr (Found idx next_idx next_value ls)) \<Rightarrow>
                (let ls' = ls @ [\<lparr>leaf_value = val, nextIndex = next_idx,
                                   nextValue = next_value\<rparr>] in
                 if cur_idx \<ge> length ls' \<or> idx \<ge> length ls'
                    \<or> cur_idx \<ge> length (hashes_r s) \<or> idx \<ge> length (hashes_r s)
                 then Some (Inl OutOfBounds)
                 else Some (Inr (0, s\<lparr>leaves_r := ls',
                                       hashes_r := (hashes_r s)
                                         [cur_idx := leaf_hash P (ls' ! cur_idx),
                                          idx := leaf_hash P (ls' ! idx)]\<rparr>))))
      else Some (Inr (0, s)))"

text \<open>Values inserted one at a time into a tree of the full-rehash implementation.\<close>

fun update_elements_rehash ::
  "primitives \<Rightarrow> imt_rehash \<Rightarrow> fr list \<Rightarrow> imt_rehash result option" where
  "update_elements_rehash P s [] = Some (Inr s)"
| "update_elements_rehash P s (v # vs) =
     (case update_element_rehash P s v of
        None \<Rightarrow> None
      | Some (Inl e) \<Rightarrow> Some (Inl e)
      | Some (Inr r) \<Rightarrow> update_elements_rehash P (snd r) vs)"

section \<open>Invariants and reference functions\<close>

text \<open>
  Level \<open>l\<close> of a tree of depth \<open>d\<close> starts at \<open>level_start d l\<close> in the flattened
  sequence; \<open>level_table d\<close> is the table the constructor is meant to compute.
\<close>

definition level_start :: "nat \<Rightarrow> nat \<Rightarrow> nat" where
  "level_start d l = 2 * 2 ^ d - 2 ^ (d + 1 - l)"

definition level_table :: "nat \<Rightarrow> nat list" where
  "level_table d = map (level_start d) [0..<d]"

text \<open>
  Node \<open>j\<close> of the flattened sequence holds the compression of its two children, which
  sit at \<open>2 * (j - total_size)\<close> and the next position; \<open>pending\<close>: one of the children
  is marked \<open>DIRTY\<close>. \<open>build_inv\<close> is the invariant of the loop of
  \<^verbatim>\<open>build_hashes_from_leaves\<close> when it is at node \<open>i\<close>.
\<close>

definition node_ok :: "primitives \<Rightarrow> nat \<Rightarrow> fr list \<Rightarrow> nat \<Rightarrow> bool" where
  "node_ok P ts hs j =
     (hs ! j = compress_pair P (hs ! (2 * (j - ts))) (hs ! (2 * (j - ts) + 1)))"

definition pending :: "nat \<Rightarrow> node_status list \<Rightarrow> nat \<Rightarrow> bool" where
  "pending ts st j = (st ! (2 * (j - ts)) = DIRTY \<or> st ! (2 * (j - ts) + 1) = DIRTY)"

definition build_inv ::
  "primitives \<Rightarrow> nat \<Rightarrow> nat \<Rightarrow> fr list \<times> node_status list \<Rightarrow> bool" where
  "build_inv P ts i s =
     (length (fst s) = 2 * ts - 2 \<and> length (snd s) = 2 * ts - 2 \<and>
      (\<forall>j. ts \<le> j \<and> j < 2 * ts - 2 \<longrightarrow>
         (if j < i then node_ok P ts (fst s) j
          else node_ok P ts (fst s) j \<or> pending ts (snd s) j)))"

text \<open>
  The root computed from the leaf hashes alone, level by level: \<^verbatim>\<open>compress_pair\<close> below the
  apex, \<^verbatim>\<open>compress_native\<close> at the apex.
\<close>

fun reduce :: "primitives \<Rightarrow> fr list \<Rightarrow> fr list" where
  "reduce P (a # b # xs) = compress_pair P a b # reduce P xs"
| "reduce P xs = []"

fun merkle_root :: "primitives \<Rightarrow> nat \<Rightarrow> fr list \<Rightarrow> fr" where
  "merkle_root P 0 L = L ! 0"
| "merkle_root P (Suc 0) L = compress_native P (L ! 0) (L ! 1)"
| "merkle_root P (Suc (Suc n)) L = merkle_root P (Suc n) (reduce P L)"

text \<open>The hash of a subtree of height \<open>l\<close> all of whose leaves hash to \<open>z\<close>.\<close>

fun level_hash :: "primitives \<Rightarrow> fr \<Rightarrow> nat \<Rightarrow> fr" where
  "level_hash P z 0 = z"
| "level_hash P z (Suc l) = compress_pair P (level_hash P z l) (level_hash P z l)"

text \<open>
  \<open>shape\<close>: the sizes and the level table of a tree of depth at most 30. \<open>hashed\<close>: the
  leaf level holds the hashes of the leaf pre-images (of the zero leaf in a free slot),
  every stored internal node is the compression of its children, and \<^verbatim>\<open>root_\<close> is the
  compression of the last two stored nodes.
\<close>

definition shape :: "imt \<Rightarrow> bool" where
  "shape t =
     (1 \<le> depth t \<and> depth t \<le> 30 \<and> total_size t = 2 ^ depth t \<and>
      level_str_idxs t = level_table (depth t) \<and>
      length (hashes t) = 2 * total_size t - 2 \<and>
      length (hstats t) = 2 * total_size t - 2)"

definition leaf_hashes :: "primitives \<Rightarrow> imt \<Rightarrow> fr list" where
  "leaf_hashes P t =
     map (leaf_hash P) (leaves t @ replicate (total_size t - length (leaves t)) zero_leaf)"

definition hashed :: "primitives \<Rightarrow> imt \<Rightarrow> bool" where
  "hashed P t =
     ((\<forall>j. total_size t \<le> j \<and> j < 2 * total_size t - 2
           \<longrightarrow> node_ok P (total_size t) (hashes t) j) \<and>
      root t = compress_native P (hashes t ! (length (hashes t) - 2))
                 (hashes t ! (length (hashes t) - 1)) \<and>
      take (total_size t) (hashes t) = leaf_hashes P t)"

text \<open>The table the constructor computes at depth 31: entry \<open>l \<ge> 1\<close> is \<open>2 ^ 64 - 2 ^ (32 - l)\<close>.\<close>

definition table_31 :: "nat list" where
  "table_31 = [0, 18446744071562067968, 18446744072635809792, 18446744073172680704,
      18446744073441116160, 18446744073575333888, 18446744073642442752,
      18446744073675997184, 18446744073692774400, 18446744073701163008,
      18446744073705357312, 18446744073707454464, 18446744073708503040,
      18446744073709027328, 18446744073709289472, 18446744073709420544,
      18446744073709486080, 18446744073709518848, 18446744073709535232,
      18446744073709543424, 18446744073709547520, 18446744073709549568,
      18446744073709550592, 18446744073709551104, 18446744073709551360,
      18446744073709551488, 18446744073709551552, 18446744073709551584,
      18446744073709551600, 18446744073709551608, 18446744073709551612]"

fun chain :: "leaf list \<Rightarrow> nat \<Rightarrow> fr list \<Rightarrow> bool" where
  "chain ls i [] = False"
| "chain ls i [x] =
     (i < length ls \<and> leaf_value (ls ! i) = x \<and> nextValue (ls ! i) = 0 \<and> nextIndex (ls ! i) = 0)"
| "chain ls i (x # y # ys) =
     (i < length ls \<and> leaf_value (ls ! i) = x \<and> nextValue (ls ! i) = y \<and>
      chain ls (nextIndex (ls ! i)) (y # ys))"

definition leaves_inv :: "leaf list \<Rightarrow> fr list \<Rightarrow> bool" where
  "leaves_inv ls xs =
     (chain ls 0 (0 # xs) \<and> sorted_wrt (<) (0 # xs) \<and> (\<forall>x \<in> set xs. x < 2 ^ 64) \<and>
      length ls = Suc (length xs))"

fun follow :: "nat \<Rightarrow> leaf list \<Rightarrow> nat \<Rightarrow> fr list" where
  "follow 0 ls i = []"
| "follow (Suc n) ls i =
     (if i < length ls
      then leaf_value (ls ! i) #
             (if nextValue (ls ! i) = 0 then [] else follow n ls (to_size_t (nextIndex (ls ! i))))
      else [])"

definition linked_values :: "imt \<Rightarrow> fr list" where
  "linked_values t = follow (length (leaves t)) (leaves t) 0"

definition tree_inv :: "primitives \<Rightarrow> imt \<Rightarrow> fr list \<Rightarrow> bool" where
  "tree_inv P t xs =
     (shape t \<and> hashed P t \<and> leaves_inv (leaves t) xs \<and> length (leaves t) \<le> total_size t)"

text \<open>
  Stand-ins for the hash primitives, for the concrete runs below: small arithmetic
  functions in place of the Pedersen hash.
\<close>

definition test_primitives :: primitives where
  "test_primitives =
     \<lparr>leaf_hash = (\<lambda>l. 1 + leaf_value l + 3 * nextIndex l + 7 * nextValue l),
      compress_pair = (\<lambda>a b. 2 * a + 3 * b + 1),
      compress_native = (\<lambda>a b. 5 * a + 7 * b + 2)\<rparr>"

text \<open>The tree \<^verbatim>\<open>IndexedMerkleTree(1)\<close> under \<open>test_primitives\<close>.\<close>

definition tree_1 :: imt where
  "tree_1 = \<lparr>depth = 1, total_size = 2, root = 14, leaves = [zero_leaf], hashes = [1, 1],
             level_str_idxs = [0], hstats = [DIRTY, DIRTY]\<rparr>"

text \<open>\<open>tree_1\<close> after \<^verbatim>\<open>update_element(5)\<close>: both slots are occupied.\<close>

definition tree_1_5 :: imt where
  "tree_1_5 = \<lparr>depth = 1, total_size = 2, root = 239,
      leaves = [\<lparr>leaf_value = 0, nextIndex = 1, nextValue = 5\<rparr>,
                \<lparr>leaf_value = 5, nextIndex = 0, nextValue = 0\<rparr>],
      hashes = [39, 6], level_str_idxs = [0], hstats = [DIRTY, DIRTY]\<rparr>"

text \<open>
  The tree \<^verbatim>\<open>IndexedMerkleTree(2)\<close> under \<open>test_primitives\<close>, the same after
  \<^verbatim>\<open>update_element(30)\<close>, and after \<^verbatim>\<open>update_element(30)\<close> and \<^verbatim>\<open>update_element(0)\<close>.
\<close>

definition tree_2 :: imt where
  "tree_2 = \<lparr>depth = 2, total_size = 4, root = 74, leaves = [zero_leaf],
      hashes = [1, 1, 1, 1, 6, 6], level_str_idxs = [0, 4],
      hstats = [CLEAN, CLEAN, CLEAN, CLEAN, DIRTY, DIRTY]\<rparr>"

definition tree_2_30 :: imt where
  "tree_2_30 = \<lparr>depth = 2, total_size = 4, root = 2654,
      leaves = [\<lparr>leaf_value = 0, nextIndex = 1, nextValue = 30\<rparr>,
                \<lparr>leaf_value = 30, nextIndex = 0, nextValue = 0\<rparr>],
      hashes = [214, 31, 1, 1, 522, 6], level_str_idxs = [0, 4],
      hstats = [CLEAN, CLEAN, CLEAN, CLEAN, DIRTY, DIRTY]\<rparr>"

definition tree_2_30_0 :: imt where
  "tree_2_30_0 = \<lparr>depth = 2, total_size = 4, root = 3566,
      leaves = [\<lparr>leaf_value = 0, nextIndex = 2, nextValue = 0\<rparr>,
                \<lparr>leaf_value = 30, nextIndex = 0, nextValue = 0\<rparr>,
                \<lparr>leaf_value = 0, nextIndex = 1, nextValue = 30\<rparr>],
      hashes = [7, 31, 214, 1, 108, 432], level_str_idxs = [0, 4],
      hstats = [CLEAN, CLEAN, CLEAN, CLEAN, DIRTY, DIRTY]\<rparr>"

text \<open>
  What the caller of the loop of \<^verbatim>\<open>update_element\<close> can tell apart: a duplicate (\<open>None\<close>)
  or the index of the leaf after which the value is inserted.
\<close>

fun decision :: "walk \<Rightarrow> nat option" where
  "decision Duplicate = None"
| "decision (Found idx next_idx next_value ls) = Some idx"

text \<open>
  Two leaf vectors that agree on what the loop reads of them but for the high bits of the
  \<^verbatim>\<open>nextValue\<close> fields: the low 64 bits of each \<^verbatim>\<open>nextValue\<close>, whether it is zero, and the
  index the loop goes to next.
\<close>

definition same_links :: "leaf list \<Rightarrow> leaf list \<Rightarrow> bool" where
  "same_links ls ls' =
     list_all2 (\<lambda>a b. to_uint64 (nextValue a) = to_uint64 (nextValue b) \<and>
                       (nextValue a = 0) = (nextValue b = 0) \<and>
                       to_size_t (nextIndex a) = to_size_t (nextIndex b)) ls ls'"

text \<open>Leaf vectors of two trees of depth 2: after inserting 5 and \<open>2 ^ 64\<close>, and 5 and 0.\<close>

definition leaves_5_big :: "leaf list" where
  "leaves_5_big = [\<lparr>leaf_value = 0, nextIndex = 2, nextValue = 18446744073709551616\<rparr>,
                   \<lparr>leaf_value = 5, nextIndex = 0, nextValue = 0\<rparr>,
                   \<lparr>leaf_value = 18446744073709551616, nextIndex = 1, nextValue = 5\<rparr>]"

definition leaves_5_0 :: "leaf list" where
  "leaves_5_0 = [\<lparr>leaf_value = 0, nextIndex = 2, nextValue = 0\<rparr>,
                 \<lparr>leaf_value = 5, nextIndex = 0, nextValue = 0\<rparr>,
                 \<lparr>leaf_value = 0, nextIndex = 1, nextValue = 5\<rparr>]"


text \<open>The pairs on the way up from node \<open>x\<close>, \<open>n\<close> of them, read off the flattened sequence.\<close>

fun path_from :: "fr list \<Rightarrow> nat \<Rightarrow> nat \<Rightarrow> nat \<Rightarrow> fr_hash_path" where
  "path_from hs ts x 0 = []"
| "path_from hs ts x (Suc n) =
     (hs ! (x - x mod 2), hs ! (x - x mod 2 + 1)) # path_from hs ts (ts + x div 2) n"

text \<open>The tree \<^verbatim>\<open>IndexedMerkleTree(3)\<close> under \<open>test_primitives\<close>.\<close>

definition tree_3 :: imt where
  "tree_3 = \<lparr>depth = 3, total_size = 8, root = 374, leaves = [zero_leaf],
      hashes = [1, 1, 1, 1, 1, 1, 1, 1, 6, 6, 6, 6, 31, 31], level_str_idxs = [0, 8, 12],
      hstats = [CLEAN, CLEAN, CLEAN, CLEAN, CLEAN, CLEAN, CLEAN, CLEAN, CLEAN, CLEAN, CLEAN,
                CLEAN, DIRTY, DIRTY]\<rparr>"

text \<open>
  The tree \<^verbatim>\<open>IndexedMerkleTree(2)\<close> of the full-rehash implementation under
  \<open>test_primitives\<close>, the same after \<^verbatim>\<open>update_element(30)\<close>, and after \<^verbatim>\<open>update_element(30)\<close>
  and \<^verbatim>\<open>get_hash_path(0)\<close>.
\<close>

definition rtree_2 :: imt_rehash where
  "rtree_2 = \<lparr>depth_r = 2, total_size_r = 4, root_r = 74, leaves_r = [zero_leaf],
      hashes_r = [1, 1, 1, 1, 6, 6]\<rparr>"

definition rtree_2_30 :: imt_rehash where
  "rtree_2_30 = \<lparr>depth_r = 2, total_size_r = 4, root_r = 74,
      leaves_r = [\<lparr>leaf_value = 0, nextIndex = 1, nextValue = 30\<rparr>,
                  \<lparr>leaf_value = 30, nextIndex = 0, nextValue = 0\<rparr>],
      hashes_r = [214, 31, 1, 1, 6, 6]\<rparr>"

definition rtree_2_30_path :: imt_rehash where
  "rtree_2_30_path = \<lparr>depth_r = 2, total_size_r = 4, root_r = 2654,
      leaves_r = [\<lparr>leaf_value = 0, nextIndex = 1, nextValue = 30\<rparr>,
                  \<lparr>leaf_value = 30, nextIndex = 0, nextValue = 0\<rparr>],
      hashes_r = [214, 31, 1, 1, 522, 6]\<rparr>"

text \<open>
  \<open>shape_r\<close>: the sizes of a tree of the full-rehash implementation, depth at most 30.
\<close>

definition shape_r :: "imt_rehash \<Rightarrow> bool" where
  "shape_r s =
     (1 \<le> depth_r s \<and> depth_r s \<le> 30 \<and> total_size_r s = 2 ^ depth_r s \<and>
      length (hashes_r s) = 2 * total_size_r s - 2)"

text \<open>
  \<open>hashed_r\<close>: the internal nodes and \<^verbatim>\<open>root_\<close> of a tree of the full-rehash implementation
  are up to date, as they are right after \<^verbatim>\<open>get_hash_path\<close>.
\<close>

definition hashed_r :: "primitives \<Rightarrow> imt_rehash \<Rightarrow> bool" where
  "hashed_r P s =
     ((\<forall>j. total_size_r s \<le> j \<and> j < 2 * total_size_r s - 2
           \<longrightarrow> node_ok P (total_size_r s) (hashes_r s) j) \<and>
      root_r s = compress_native P (hashes_r s ! (length (hashes_r s) - 2))
                   (hashes_r s ! (length (hashes_r s) - 1)))"

text \<open>
  \<open>leaf_level_r\<close>: the leaf level of \<^verbatim>\<open>hashes_\<close> holds the hashes of the leaf pre-images, of
  the zero leaf in a free slot. \<open>sim\<close>: a tree of the dirty-tracking implementation and a
  tree of the full-rehash implementation with the same depth, size and leaf pre-images.
\<close>

definition leaf_hashes_r :: "primitives \<Rightarrow> imt_rehash \<Rightarrow> fr list" where
  "leaf_hashes_r P s =
     map (leaf_hash P)
       (leaves_r s @ replicate (total_size_r s - length (leaves_r s)) zero_leaf)"

definition leaf_level_r :: "primitives \<Rightarrow> imt_rehash \<Rightarrow> bool" where
  "leaf_level_r P s =
     (take (total_size_r s) (hashes_r s) = leaf_hashes_r P s \<and>
      length (leaves_r s) \<le> total_size_r s)"

definition sim :: "imt \<Rightarrow> imt_rehash \<Rightarrow> bool" where
  "sim t s = (depth_r s = depth t \<and> total_size_r s = total_size t \<and> leaves_r s = leaves t)"

text \<open>The values met by following \<^verbatim>\<open>nextIndex\<close> from leaf 0, in the full-rehash implementation.\<close>

definition linked_values_r :: "imt_rehash \<Rightarrow> fr list" where
  "linked_values_r s = follow (length (leaves_r s)) (leaves_r s) 0"

text \<open>
  The linked list of a tree reached by arbitrary insertions. \<open>links ls i xs\<close>: following
  \<^verbatim>\<open>nextIndex\<close> from leaf \<open>i\<close> meets the leaf values \<open>xs\<close>, each \<^verbatim>\<open>nextValue\<close> is the value of
  the next leaf and is not zero, and the last \<^verbatim>\<open>nextValue\<close> is zero. \<open>links_inv\<close>: the list
  starts at the sentinel, and the low 64 bits of the values after the sentinel ascend
  strictly. \<open>reach_inv\<close> is the invariant of every tree the constructor and
  \<^verbatim>\<open>update_element\<close> produce at depth at most 30.
\<close>

fun links :: "leaf list \<Rightarrow> nat \<Rightarrow> fr list \<Rightarrow> bool" where
  "links ls i [] = False"
| "links ls i [x] = (i < length ls \<and> leaf_value (ls ! i) = x \<and> nextValue (ls ! i) = 0)"
| "links ls i (x # y # ys) =
     (i < length ls \<and> leaf_value (ls ! i) = x \<and> nextValue (ls ! i) = y \<and> y \<noteq> 0 \<and>
      links ls (nextIndex (ls ! i)) (y # ys))"

definition links_inv :: "leaf list \<Rightarrow> fr list \<Rightarrow> bool" where
  "links_inv ls xs =
     (links ls 0 (0 # xs) \<and> sorted_wrt (\<lambda>a b. to_uint64 a < to_uint64 b) xs \<and> 0 \<notin> set xs \<and>
      Suc (length xs) \<le> length ls)"

definition reach_inv :: "primitives \<Rightarrow> imt \<Rightarrow> fr list \<Rightarrow> bool" where
  "reach_inv P t xs =
     (shape t \<and> hashed P t \<and> links_inv (leaves t) xs \<and> length (leaves t) \<le> total_size t)"


section \<open>Proofs\<close>

subsection \<open>The level table and the position of the children\<close>

lemma level_start_0: "level_start d 0 = 0"
  by (simp add: level_start_def)

lemma level_start_1: "1 \<le> d \<Longrightarrow> level_start d (Suc 0) = 2 ^ d"
  by (simp add: level_start_def)

lemma level_start_Suc:
  assumes "l < d"
  shows "level_start d (Suc l) = level_start d l + 2 ^ (d - l)"
proof -
  have e: "(2::nat) ^ (Suc d - l) = 2 * 2 ^ (d - l)"
    using assms by (simp add: Suc_diff_le)
  have "(2::nat) ^ (d - l) \<le> 2 ^ d" by (rule power_increasing) simp_all
  then show ?thesis by (simp add: level_start_def e)
qed

lemma level_start_double:
  assumes "l < d"
  shows "2 * level_start d (Suc l) = level_start d l + 2 * 2 ^ d"
proof -
  have e: "(2::nat) ^ (Suc d - l) = 2 * 2 ^ (d - l)"
    using assms by (simp add: Suc_diff_le)
  have "(2::nat) ^ (d - l) \<le> 2 ^ d" by (rule power_increasing) simp_all
  then show ?thesis by (simp add: level_start_def e)
qed

lemma level_start_le: "level_start d l \<le> 2 * 2 ^ d"
  by (simp add: level_start_def)

lemma pow2_le_30: "d \<le> 30 \<Longrightarrow> (2::nat) ^ d \<le> 1073741824"
  using power_increasing [of d 30 "2::nat"] by simp

lemma level_loop_table:
  assumes "1 \<le> i" "i \<le> d" "d \<le> 30"
  shows "level_loop d [i..<d] (map (level_start d) [0..<i]) = Inr (level_table d)"
  using assms
proof (induction "d - i" arbitrary: i)
  case 0
  then show ?case by (simp add: level_table_def)
next
  case (Suc n)
  then have lt: "i < d" by simp
  obtain j where j: "i = Suc j" using Suc.prems(1) by (cases i) auto
  have k: "d - (i - 1) = d - j" using j by simp
  have k30: "d - j < 31" using Suc.prems by simp
  have p1: "(2::nat) ^ (d - j) \<le> 1073741824"
    by (rule pow2_le_30) (use Suc.prems in simp)
  have p2: "level_start d j \<le> 2 * 1073741824"
    using level_start_le [of d j] pow2_le_30 [OF Suc.prems(3)] by linarith
  have new: "nat ((int (level_start d j) + 2 ^ (d - j)) mod 2 ^ 64) = level_start d (Suc j)"
  proof -
    have lt64: "level_start d j + 2 ^ (d - j) < 2 ^ 64" using p1 p2 by simp
    have "(int (level_start d j) + 2 ^ (d - j)) mod 2 ^ 64
        = int ((level_start d j + 2 ^ (d - j)) mod 2 ^ 64)"
      by (simp add: zmod_int)
    also have "\<dots> = int (level_start d j + 2 ^ (d - j))"
      using lt64 by simp
    finally have "nat ((int (level_start d j) + 2 ^ (d - j)) mod 2 ^ 64)
        = level_start d j + 2 ^ (d - j)"
      by (simp only: nat_int)
    then show ?thesis using level_start_Suc [of j d] lt j by simp
  qed
  have nth: "map (level_start d) [0..<i] ! (i - 1) = level_start d j"
    using j by (simp del: upt_Suc)
  have IH: "level_loop d [Suc i..<d] (map (level_start d) [0..<Suc i]) = Inr (level_table d)"
    by (rule Suc.hyps(1)) (use Suc lt in simp_all)
  have "level_loop d [i..<d] (map (level_start d) [0..<i])
      = level_loop d [Suc i..<d] (map (level_start d) [0..<i] @ [level_start d i])"
    using lt nth k k30 new j by (simp add: upt_conv_Cons shl_int_def del: upt_Suc)
  then show ?case using IH by simp
qed

lemma level_loop_ok:
  assumes "1 \<le> d" "d \<le> 30"
  shows "level_loop d [1..<d] [0] = Inr (level_table d)"
  using level_loop_table [of 1 d] assms by (simp add: level_start_0)

lemma level_table_nth: "l < d \<Longrightarrow> level_table d ! l = level_start d l"
  by (simp add: level_table_def)

lemma length_level_table: "length (level_table d) = d"
  by (simp add: level_table_def)

lemma locate_inv:
  assumes "2 \<le> m" "m \<le> d" "2 ^ d \<le> i"
  shows "fst (fold (locate_step (level_table d) i) [0..<m] (0, 0)) \<le> i \<and>
         snd (fold (locate_step (level_table d) i) [0..<m] (0, 0)) + 2 * 2 ^ d
           = 2 * fst (fold (locate_step (level_table d) i) [0..<m] (0, 0))"
  using assms
proof (induction m rule: dec_induct)
  case base
  have u: "[0..<2] = [0, Suc 0]" by (simp add: upt_conv_Cons)
  show ?case using base
    by (simp add: u locate_step_def level_table_nth level_start_0 level_start_1 Let_def)
next
  case (step n)
  define s where "s = fold (locate_step (level_table d) i) [0..<n] (0, 0)"
  obtain k where k: "n = Suc k" using step.hyps(1) by (cases n) auto
  have IH: "fst s \<le> i \<and> snd s + 2 * 2 ^ d = 2 * fst s"
    unfolding s_def using step by simp
  have dbl: "2 * level_start d n = level_start d k + 2 * 2 ^ d"
    using level_start_double [of k d] k step.prems by simp
  have nn: "level_table d ! n = level_start d n" "level_table d ! (n - Suc 0) = level_start d k"
    using step.prems step.hyps k by (simp_all add: level_table_nth)
  have f: "fold (locate_step (level_table d) i) [0..<Suc n] (0, 0)
             = locate_step (level_table d) i n s"
    by (simp add: s_def)
  have pos: "0 < n" using k by simp
  show ?case
    unfolding f using IH dbl pos by (simp add: locate_step_def nn Let_def)
qed

lemma locate_child:
  assumes "2 \<le> d" "2 ^ d \<le> i"
  shows "snd (locate (level_table d) i) + (i - fst (locate (level_table d) i)) * 2
           = 2 * (i - 2 ^ d)"
proof -
  have "fst (locate (level_table d) i) \<le> i \<and>
        snd (locate (level_table d) i) + 2 * 2 ^ d = 2 * fst (locate (level_table d) i)"
    unfolding locate_def length_level_table
    by (rule locate_inv) (use assms in simp_all)
  then show ?thesis by linarith
qed

subsection \<open>The loop of build_hashes_from_leaves\<close>

lemma build_step_eq:
  assumes d: "2 \<le> d" "d \<le> 30"
    and i: "2 ^ d \<le> i" "i < 2 * 2 ^ d - 2"
    and len: "length hs = 2 * 2 ^ d - 2" "length st = 2 * 2 ^ d - 2"
  shows "build_step P (level_table d) i (hs, st) =
           Inr (if st ! (2 * (i - 2 ^ d)) = DIRTY \<or> st ! (2 * (i - 2 ^ d) + 1) = DIRTY
                then (hs[i := compress_pair P (hs ! (2 * (i - 2 ^ d))) (hs ! (2 * (i - 2 ^ d) + 1))],
                      st[2 * (i - 2 ^ d) := CLEAN, 2 * (i - 2 ^ d) + 1 := CLEAN, i := DIRTY])
                else (hs, st))"
proof -
  define c where "c = 2 * (i - 2 ^ d)"
  have ch: "snd (locate (level_table d) i) + (i - fst (locate (level_table d) i)) * 2 = c"
    unfolding c_def by (rule locate_child) (use d i in simp_all)
  have b: "(2::nat) ^ d \<le> 1073741824" by (rule pow2_le_30) (rule d)
  have c1: "c + 1 < i" using i by (simp add: c_def)
  have c64: "c < 2 ^ 64" "c + 1 < 2 ^ 64" using c1 i b by simp_all
  have m: "c mod 2 ^ 64 = c" "(c + 1) mod 2 ^ 64 = c + 1" "Suc c mod 2 ^ 64 = Suc c"
    using c64 by simp_all
  show ?thesis
    unfolding build_step_def Let_def fst_conv snd_conv ch c_def [symmetric] m
    using c1 i len by simp
qed

lemma build_step_inv:
  assumes d: "2 \<le> d" "d \<le> 30"
    and i: "2 ^ d \<le> i" "i < 2 * 2 ^ d - 2"
    and inv: "build_inv P (2 ^ d) i s"
  shows "\<exists>s'. build_step P (level_table d) i s = Inr s' \<and> build_inv P (2 ^ d) (Suc i) s'
              \<and> (\<forall>j < 2 ^ d. fst s' ! j = fst s ! j)"
proof -
  obtain hs st where s: "s = (hs, st)" by (cases s)
  define ts :: nat where "ts = 2 ^ d"
  define c where "c = 2 * (i - ts)"
  have len: "length hs = 2 * ts - 2" "length st = 2 * ts - 2"
    using inv by (simp_all add: build_inv_def s ts_def)
  have its: "ts \<le> i" "i < 2 * ts - 2" using i by (simp_all add: ts_def)
  have c1: "c + 1 < i" using its by (simp add: c_def)
  have old: "\<And>j. ts \<le> j \<Longrightarrow> j < 2 * ts - 2 \<Longrightarrow> j < i \<Longrightarrow> node_ok P ts hs j"
    and new: "\<And>j. ts \<le> j \<Longrightarrow> j < 2 * ts - 2 \<Longrightarrow> i \<le> j \<Longrightarrow> node_ok P ts hs j \<or> pending ts st j"
    using inv unfolding build_inv_def s ts_def [symmetric] by (auto split: if_splits)
  have eq: "build_step P (level_table d) i (hs, st) =
           Inr (if st ! c = DIRTY \<or> st ! (c + 1) = DIRTY
                then (hs[i := compress_pair P (hs ! c) (hs ! (c + 1))],
                      st[c := CLEAN, c + 1 := CLEAN, i := DIRTY])
                else (hs, st))"
    unfolding c_def ts_def by (rule build_step_eq) (use d i len in \<open>simp_all add: ts_def\<close>)
  show ?thesis
  proof (cases "st ! c = DIRTY \<or> st ! (c + 1) = DIRTY")
    case False
    have "node_ok P ts hs i"
      using new [of i] its False by (auto simp: pending_def c_def)
    then have "build_inv P ts (Suc i) (hs, st)"
      unfolding build_inv_def using len old new by (auto simp: less_Suc_eq)
    then show ?thesis using eq False by (simp add: s ts_def)
  next
    case True
    define hs' where "hs' = hs[i := compress_pair P (hs ! c) (hs ! (c + 1))]"
    define st' where "st' = st[c := CLEAN, c + 1 := CLEAN, i := DIRTY]"
    have r: "build_step P (level_table d) i (hs, st) = Inr (hs', st')"
      using eq True by (simp add: hs'_def st'_def)
    have ok: "node_ok P ts hs' j \<or> (\<not> j < Suc i \<and> pending ts st' j)"
      if j: "ts \<le> j" "j < 2 * ts - 2" for j
    proof -
      consider "j < i" | "j = i" | "i < j" by linarith
      then show ?thesis
      proof cases
        case 1
        then have "node_ok P ts hs j" using old j by simp
        moreover have "2 * (j - ts) + 1 < i" using 1 j by simp
        ultimately show ?thesis using 1 by (simp add: node_ok_def hs'_def)
      next
        case 2
        then show ?thesis using c1 its len by (simp add: node_ok_def hs'_def c_def)
      next
        case 3
        have cj: "c + 1 < 2 * (j - ts)" using 3 its by (simp add: c_def)
        have lj: "2 * (j - ts) + 1 < length st" using j len by simp
        show ?thesis
        proof (cases "i = 2 * (j - ts) \<or> i = 2 * (j - ts) + 1")
          case True
          then have "pending ts st' j"
            using lj by (auto simp: pending_def st'_def)
          then show ?thesis using 3 by simp
        next
          case ni: False
          from new [of j] j 3 have "node_ok P ts hs j \<or> pending ts st j" by simp
          then show ?thesis
          proof
            assume "node_ok P ts hs j"
            then have "node_ok P ts hs' j" using ni 3 by (simp add: node_ok_def hs'_def)
            then show ?thesis ..
          next
            assume "pending ts st j"
            then have "pending ts st' j" using cj ni by (simp add: pending_def st'_def)
            then show ?thesis using 3 by simp
          qed
        qed
      qed
    qed
    have "build_inv P ts (Suc i) (hs', st')"
      unfolding build_inv_def using len ok by (auto simp: hs'_def st'_def)
    moreover have "\<forall>j < ts. hs' ! j = hs ! j" using its by (simp add: hs'_def)
    ultimately show ?thesis using r by (simp add: s ts_def)
  qed
qed

lemma build_loop_inv:
  assumes d: "2 \<le> d" "d \<le> 30"
    and i: "2 ^ d \<le> i" "i \<le> 2 * 2 ^ d - 2"
    and inv: "build_inv P (2 ^ d) i s"
  shows "\<exists>s'. build_loop P (level_table d) [i..<2 * 2 ^ d - 2] s = Inr s'
              \<and> build_inv P (2 ^ d) (2 * 2 ^ d - 2) s'
              \<and> (\<forall>j < 2 ^ d. fst s' ! j = fst s ! j)"
  using i inv
proof (induction "2 * 2 ^ d - 2 - i" arbitrary: i s)
  case 0
  then have "i = 2 * 2 ^ d - 2" by simp
  then show ?case using 0 by simp
next
  case (Suc n)
  then have lt: "i < 2 * 2 ^ d - 2" by simp
  obtain s1 where s1: "build_step P (level_table d) i s = Inr s1"
      "build_inv P (2 ^ d) (Suc i) s1" "\<forall>j < 2 ^ d. fst s1 ! j = fst s ! j"
    using build_step_inv [OF d Suc.prems(1) lt Suc.prems(3)] by blast
  have "\<exists>s'. build_loop P (level_table d) [Suc i..<2 * 2 ^ d - 2] s1 = Inr s'
              \<and> build_inv P (2 ^ d) (2 * 2 ^ d - 2) s'
              \<and> (\<forall>j < 2 ^ d. fst s' ! j = fst s1 ! j)"
    by (rule Suc.hyps(1)) (use Suc lt s1 in simp_all)
  then obtain s' where s': "build_loop P (level_table d) [Suc i..<2 * 2 ^ d - 2] s1 = Inr s'"
      "build_inv P (2 ^ d) (2 * 2 ^ d - 2) s'" "\<forall>j < 2 ^ d. fst s' ! j = fst s1 ! j"
    by blast
  have "build_loop P (level_table d) [i..<2 * 2 ^ d - 2] s = Inr s'"
    using lt s1(1) s'(1) by (simp add: upt_conv_Cons)
  then show ?case using s'(2,3) s1(3) by simp
qed

subsection \<open>The root over the leaf level\<close>

lemma length_reduce: "length (reduce P xs) = length xs div 2"
  by (induction P xs rule: reduce.induct) simp_all

lemma reduce_nth:
  "2 * k + 1 < length xs \<Longrightarrow> reduce P xs ! k = compress_pair P (xs ! (2 * k)) (xs ! (2 * k + 1))"
proof (induction P xs arbitrary: k rule: reduce.induct)
  case (1 P a b xs)
  then show ?case by (cases k) simp_all
qed simp_all

lemma reduce_replicate: "reduce P (replicate (2 * n) z) = replicate n (compress_pair P z z)"
  by (induction n) simp_all

lemma root_of_flat:
  assumes "1 \<le> d" "length h = 2 * 2 ^ d - 2"
    and "\<forall>j. 2 ^ d \<le> j \<and> j < 2 * 2 ^ d - 2 \<longrightarrow> node_ok P (2 ^ d) h j"
  shows "compress_native P (h ! (length h - 2)) (h ! (length h - 1))
           = merkle_root P d (take (2 ^ d) h)"
  using assms
proof (induction d arbitrary: h rule: nat_induct_at_least)
  case base
  then show ?case by simp
next
  case (Suc n)
  define ts :: nat where "ts = 2 ^ n"
  define h' where "h' = drop (2 * ts) h"
  have ts2: "2 \<le> ts" using Suc.hyps self_le_power [of 2 n] by (simp add: ts_def)
  have len: "length h = 4 * ts - 2" using Suc.prems by (simp add: ts_def)
  have ok: "\<And>j. 2 * ts \<le> j \<Longrightarrow> j < 4 * ts - 2 \<Longrightarrow>
      h ! j = compress_pair P (h ! (2 * (j - 2 * ts))) (h ! (2 * (j - 2 * ts) + 1))"
    using Suc.prems(2) by (simp add: node_ok_def ts_def)
  have len': "length h' = 2 * ts - 2" using len by (simp add: h'_def)
  have nth': "\<And>k. k < 2 * ts - 2 \<Longrightarrow> h' ! k = h ! (2 * ts + k)"
    using len by (simp add: h'_def)
  have ok': "\<forall>j. ts \<le> j \<and> j < 2 * ts - 2 \<longrightarrow> node_ok P ts h' j"
  proof (intro allI impI)
    fix j assume j: "ts \<le> j \<and> j < 2 * ts - 2"
    have "2 * ts + j < 4 * ts - 2" using j by linarith
    then have a: "h' ! j = compress_pair P (h ! (2 * j)) (h ! (2 * j + 1))"
      using nth' [of j] ok [of "2 * ts + j"] j by simp
    have r: "2 * (j - ts) < 2 * ts - 2" "2 * (j - ts) + 1 < 2 * ts - 2" using j by linarith+
    have e: "2 * ts + 2 * (j - ts) = 2 * j" "2 * ts + (2 * (j - ts) + 1) = 2 * j + 1"
      using j by linarith+
    have b: "h' ! (2 * (j - ts)) = h ! (2 * j)" "h' ! (2 * (j - ts) + 1) = h ! (2 * j + 1)"
      using nth' [OF r(1)] nth' [OF r(2)] by (simp_all only: e)
    show "node_ok P ts h' j" by (simp only: node_ok_def a b)
  qed
  have IH: "compress_native P (h' ! (length h' - 2)) (h' ! (length h' - 1))
              = merkle_root P n (take ts h')"
    unfolding ts_def by (rule Suc.IH) (use len' ok' in \<open>simp_all add: ts_def\<close>)
  have top: "h' ! (length h' - 2) = h ! (length h - 2)" "h' ! (length h' - 1) = h ! (length h - 1)"
  proof -
    have e1: "2 * ts + (2 * ts - 2 - 2) = 4 * ts - 2 - 2" and e2: "2 * ts + (2 * ts - 2 - 1) = 4 * ts - 2 - 1"
      using ts2 by simp_all
    show "h' ! (length h' - 2) = h ! (length h - 2)"
      using nth' [of "2 * ts - 2 - 2"] ts2 by (simp add: len len' e1)
    show "h' ! (length h' - 1) = h ! (length h - 1)"
      using nth' [of "2 * ts - 2 - 1"] ts2 by (simp add: len len' e2)
  qed
  have red: "take ts h' = reduce P (take (2 * ts) h)"
  proof (rule nth_equalityI)
    show "length (take ts h') = length (reduce P (take (2 * ts) h))"
      using len len' ts2 by (simp add: length_reduce)
  next
    fix k assume "k < length (take ts h')"
    then have k: "k < ts" "k < 2 * ts - 2" using len' by simp_all
    have "2 * ts + k < 4 * ts - 2" using k by linarith
    then have "h' ! k = compress_pair P (h ! (2 * k)) (h ! (2 * k + 1))"
      using nth' [of k] ok [of "2 * ts + k"] k by simp
    moreover have "reduce P (take (2 * ts) h) ! k
        = compress_pair P (take (2 * ts) h ! (2 * k)) (take (2 * ts) h ! (2 * k + 1))"
      by (rule reduce_nth) (use k len in simp)
    ultimately show "take ts h' ! k = reduce P (take (2 * ts) h) ! k"
      using k by simp
  qed
  obtain m where m: "n = Suc m" using Suc.hyps by (cases n) auto
  have "merkle_root P (Suc n) (take (2 ^ Suc n) h) = merkle_root P n (reduce P (take (2 * ts) h))"
    by (simp add: m ts_def)
  then show ?case using IH top red by simp
qed

lemma level_hash_shift: "level_hash P (compress_pair P z z) l = level_hash P z (Suc l)"
  by (induction l) simp_all

lemma merkle_root_replicate:
  "merkle_root P (Suc n) (replicate (2 ^ Suc n) z)
     = compress_native P (level_hash P z n) (level_hash P z n)"
proof (induction n arbitrary: z)
  case 0
  show ?case by simp
next
  case (Suc n)
  have "reduce P (replicate (2 ^ Suc (Suc n)) z) = replicate (2 ^ Suc n) (compress_pair P z z)"
    using reduce_replicate [of P "2 ^ Suc n" z] by simp
  then have "merkle_root P (Suc (Suc n)) (replicate (2 ^ Suc (Suc n)) z)
      = merkle_root P (Suc n) (replicate (2 ^ Suc n) (compress_pair P z z))"
    by (simp only: merkle_root.simps)
  also have "\<dots> = compress_native P (level_hash P (compress_pair P z z) n)
                        (level_hash P (compress_pair P z z) n)"
    by (rule Suc)
  finally show ?case by (simp only: level_hash_shift)
qed

subsection \<open>The constructor, depth 1 to 30\<close>

lemma fill_loop_ok:
  assumes "n \<le> length hs"
  shows "\<exists>hs'. fill_loop z [i..<n] hs = Inr hs' \<and> length hs' = length hs \<and>
           (\<forall>j < length hs. hs' ! j = (if i \<le> j \<and> j < n then z else hs ! j))"
  using assms
proof (induction "n - i" arbitrary: i hs)
  case 0
  then show ?case by simp
next
  case (Suc k)
  then have lt: "i < n" by simp
  have "\<exists>hs'. fill_loop z [Suc i..<n] (hs[i := z]) = Inr hs' \<and> length hs' = length (hs[i := z]) \<and>
           (\<forall>j < length (hs[i := z]). hs' ! j = (if Suc i \<le> j \<and> j < n then z else hs[i := z] ! j))"
    by (rule Suc.hyps(1)) (use Suc in simp_all)
  then obtain hs' where h: "fill_loop z [Suc i..<n] (hs[i := z]) = Inr hs'" "length hs' = length hs"
      "\<forall>j < length hs. hs' ! j = (if Suc i \<le> j \<and> j < n then z else hs[i := z] ! j)"
    by auto
  have "fill_loop z [i..<n] hs = Inr hs'"
    using lt Suc.prems h(1) by (simp add: upt_conv_Cons)
  moreover have "\<forall>j < length hs. hs' ! j = (if i \<le> j \<and> j < n then z else hs ! j)"
    using h(3) lt by (auto simp: nth_list_update)
  ultimately show ?case using h(2) by simp
qed

lemma two_le_pow: "1 \<le> d \<Longrightarrow> (2::nat) \<le> 2 ^ d"
  using self_le_power [of "2::nat" d] by simp

lemma four_le_pow: "2 \<le> d \<Longrightarrow> (4::nat) \<le> 2 ^ d"
  using power_increasing [of 2 d "2::nat"] by simp

lemma build_hashes_ok:
  assumes sh: "shape t"
    and inv: "build_inv P (total_size t) (total_size t) (hashes t, hstats t)"
  shows "\<exists>hs st. build_hashes_from_leaves P t = Inr (t\<lparr>hashes := hs, hstats := st\<rparr>) \<and>
           length hs = 2 * total_size t - 2 \<and> length st = 2 * total_size t - 2 \<and>
           (\<forall>j. total_size t \<le> j \<and> j < 2 * total_size t - 2 \<longrightarrow> node_ok P (total_size t) hs j) \<and>
           take (total_size t) hs = take (total_size t) (hashes t)"
proof (cases "depth t = 1")
  case True
  then have ts: "total_size t = 2" "length (hashes t) = 2" using sh by (simp_all add: shape_def)
  have "build_hashes_from_leaves P t = Inr (t\<lparr>hashes := hashes t, hstats := hstats t\<rparr>)"
    by (simp add: build_hashes_from_leaves_def ts)
  moreover have "\<forall>j. 2 \<le> j \<and> j < (2::nat) \<longrightarrow> node_ok P 2 (hashes t) j" by auto
  ultimately show ?thesis using sh ts
    by (intro exI [of _ "hashes t"] exI [of _ "hstats t"]) (simp add: shape_def)
next
  case False
  define d where "d = depth t"
  have d: "2 \<le> d" "d \<le> 30" using False sh by (simp_all add: shape_def d_def)
  have ts: "total_size t = 2 ^ d" "level_str_idxs t = level_table d"
      "length (hashes t) = 2 * 2 ^ d - 2"
    using sh by (simp_all add: shape_def d_def)
  have "2 ^ d \<le> 2 * 2 ^ d - (2::nat)" using four_le_pow [OF d(1)] by simp
  from build_loop_inv [OF d _ this, of P "(hashes t, hstats t)"] inv
  obtain s' where s': "build_loop P (level_table d) [2 ^ d..<2 * 2 ^ d - 2] (hashes t, hstats t) = Inr s'"
      "build_inv P (2 ^ d) (2 * 2 ^ d - 2) s'" "\<forall>j < 2 ^ d. fst s' ! j = hashes t ! j"
    by (auto simp: ts)
  have len: "length (fst s') = 2 * 2 ^ d - 2" "length (snd s') = 2 * 2 ^ d - 2"
    using s'(2) by (simp_all add: build_inv_def)
  have ok: "\<forall>j. 2 ^ d \<le> j \<and> j < 2 * 2 ^ d - 2 \<longrightarrow> node_ok P (2 ^ d) (fst s') j"
    using s'(2) by (simp add: build_inv_def)
  have tk: "take (2 ^ d) (fst s') = take (2 ^ d) (hashes t)"
    by (rule nth_equalityI) (use s'(3) len ts in simp_all)
  have "build_hashes_from_leaves P t = Inr (t\<lparr>hashes := fst s', hstats := snd s'\<rparr>)"
    by (simp add: build_hashes_from_leaves_def ts s'(1))
  then show ?thesis using len ok tk
    by (intro exI [of _ "fst s'"] exI [of _ "snd s'"]) (simp add: ts)
qed

lemma construct_ok:
  assumes "1 \<le> d" "d \<le> 30"
  shows "\<exists>t. IndexedMerkleTree P d = Inr t \<and> shape t \<and> depth t = d \<and> hashed P t
            \<and> leaves t = [zero_leaf]"
proof -
  define ts :: nat where "ts = 2 ^ d"
  define z where "z = leaf_hash P zero_leaf"
  define t0 where "t0 = \<lparr>depth = d, total_size = ts, root = 0, leaves = [zero_leaf],
      hashes = replicate (ts * 2 - 2) 0, level_str_idxs = level_table d,
      hstats = replicate (ts * 2 - 2) DIRTY\<rparr>"
  have ts2: "2 \<le> ts" unfolding ts_def by (rule two_le_pow) (rule assms)
  obtain hs1 where hs1: "fill_loop z [0..<ts] (replicate (ts * 2 - 2) 0) = Inr hs1"
      "length hs1 = ts * 2 - 2" "\<forall>j < ts * 2 - 2. hs1 ! j = (if j < ts then z else 0)"
  proof -
    have "ts \<le> length (replicate (ts * 2 - 2) (0::nat))" using ts2 by simp
    from fill_loop_ok [OF this, of z 0] show ?thesis using that by auto
  qed
  define t1 where "t1 = t0\<lparr>hashes := hs1\<rparr>"
  have sh1: "shape t1"
    using assms hs1(2) by (simp add: shape_def t1_def t0_def ts_def)
  have inv1: "build_inv P (total_size t1) (total_size t1) (hashes t1, hstats t1)"
    using hs1(2) by (auto simp: build_inv_def t1_def t0_def pending_def)
  obtain hs2 st2 where b: "build_hashes_from_leaves P t1 = Inr (t1\<lparr>hashes := hs2, hstats := st2\<rparr>)"
      "length hs2 = 2 * ts - 2" "length st2 = 2 * ts - 2"
      "\<forall>j. ts \<le> j \<and> j < 2 * ts - 2 \<longrightarrow> node_ok P ts hs2 j"
      "take ts hs2 = take ts hs1"
    using build_hashes_ok [OF sh1 inv1] by (auto simp: t1_def t0_def)
  define t2 where "t2 = t1\<lparr>hashes := hs2, hstats := st2\<rparr>"
  define t3 where "t3 = t2\<lparr>root := compress_native P (hs2 ! (length hs2 - 2)) (hs2 ! (length hs2 - 1))\<rparr>"
  have ini: "init_hashes P t0 = Inr t2"
    using hs1(1) b(1) by (simp add: init_hashes_def t0_def z_def t1_def t2_def)
  have cr: "calculate_root P t2 = Inr t3"
    using b(2) ts2 by (simp add: calculate_root_def t2_def t3_def Let_def)
  have c: "IndexedMerkleTree P d = Inr t3"
    using assms ini cr level_loop_ok [OF assms]
    by (simp add: IndexedMerkleTree_def t0_def ts_def Let_def)
  have tk: "take ts hs1 = replicate ts z"
    by (rule nth_equalityI) (use hs1 ts2 in simp_all)
  have lh: "leaf_hashes P t3 = replicate ts z"
  proof -
    have "[zero_leaf] @ replicate (ts - 1) zero_leaf = replicate ts zero_leaf"
      using ts2 by (cases ts) simp_all
    then show ?thesis
      by (simp add: leaf_hashes_def t3_def t2_def t1_def t0_def z_def)
  qed
  have "shape t3" using assms b(2,3) by (simp add: shape_def t3_def t2_def t1_def t0_def ts_def)
  moreover have "hashed P t3"
    using b(4,5) tk lh by (simp add: hashed_def t3_def t2_def t1_def t0_def)
  moreover have "depth t3 = d" "leaves t3 = [zero_leaf]"
    by (simp_all add: t3_def t2_def t1_def t0_def)
  ultimately show ?thesis using c by blast
qed

subsection \<open>The constructor, depth 31 and 32\<close>

lemma construct_level_Inl:
  assumes "1 \<le> d" "d \<le> 32" "level_loop d [1..<d] [0] = Inl e"
  shows "IndexedMerkleTree P d = Inl e"
  using assms by (simp add: IndexedMerkleTree_def Let_def)

lemma level_loop_32: "level_loop 32 [1..<32] [0] = Inl UndefinedShift"
proof -
  have "[1..<32] = 1 # [2..<(32::nat)]" by (simp add: upt_conv_Cons)
  then show ?thesis by (simp add: shl_int_def)
qed

lemma upt_31: "[1..<31] = [1,2,3,4,5,6,7,8,9,10,11,12,13,14,15,16,17,18,19,20,21,22,23,24,25,26,27,28,29,30::nat]"
  by code_simp

lemma upt_0_31: "[0..<31] = [0,1,2,3,4,5,6,7,8,9,10,11,12,13,14,15,16,17,18,19,20,21,22,23,24,25,26,27,28,29,30::nat]"
  by code_simp

lemma level_loop_31: "level_loop 31 [1..<31] [0] = Inr table_31"
  unfolding upt_31 table_31_def
  by (simp add: shl_int_def Let_def cong: let_weak_cong option.case_cong_weak)

lemma locate_31: "locate table_31 2147483648 = (0, 0)"
proof -
  have l: "length table_31 = 31" by (simp add: table_31_def)
  show ?thesis unfolding locate_def l upt_0_31
    by (simp add: locate_step_def table_31_def Let_def cong: let_weak_cong)
qed

lemma build_step_31:
  assumes "length (fst s) = 4294967294"
  shows "build_step P table_31 2147483648 s = Inl OutOfBounds"
  using assms by (simp add: build_step_def locate_31 Let_def)

lemma build_loop_first_Inl:
  assumes "i < n" "build_step P lsis i s = Inl e"
  shows "build_loop P lsis [i..<n] s = Inl e"
  using assms by (simp add: upt_conv_Cons)

lemma build_hashes_first_Inl:
  assumes "total_size t < length (hashes t)"
    "build_step P (level_str_idxs t) (total_size t) (hashes t, hstats t) = Inl e"
  shows "build_hashes_from_leaves P t = Inl e"
  using build_loop_first_Inl [OF assms] by (simp add: build_hashes_from_leaves_def)

lemma init_hashes_31:
  assumes "total_size t = 2147483648" "length (hashes t) = 4294967294"
    "level_str_idxs t = table_31"
  shows "init_hashes P t = Inl OutOfBounds"
proof -
  have "total_size t \<le> length (hashes t)" using assms by simp
  from fill_loop_ok [OF this, of "leaf_hash P zero_leaf" 0]
  obtain hs1 where hs1: "fill_loop (leaf_hash P zero_leaf) [0..<total_size t] (hashes t) = Inr hs1"
      "length hs1 = length (hashes t)"
    by auto
  have "build_hashes_from_leaves P (t\<lparr>hashes := hs1\<rparr>) = Inl OutOfBounds"
  proof (rule build_hashes_first_Inl)
    show "total_size (t\<lparr>hashes := hs1\<rparr>) < length (hashes (t\<lparr>hashes := hs1\<rparr>))"
      using assms hs1(2) by simp
    show "build_step P (level_str_idxs (t\<lparr>hashes := hs1\<rparr>)) (total_size (t\<lparr>hashes := hs1\<rparr>))
            (hashes (t\<lparr>hashes := hs1\<rparr>), hstats (t\<lparr>hashes := hs1\<rparr>)) = Inl OutOfBounds"
      using build_step_31 [of "(hs1, hstats t)" P] assms hs1(2) by simp
  qed
  then show ?thesis using hs1(1) by (simp add: init_hashes_def)
qed

lemma construct_level_Inr:
  assumes "1 \<le> d" "d \<le> 32" "level_loop d [1..<d] [0] = Inr tbl"
    "init_hashes P \<lparr>depth = d, total_size = 2 ^ d, root = 0, leaves = [zero_leaf],
       hashes = replicate (2 ^ d * 2 - 2) 0, level_str_idxs = tbl,
       hstats = replicate (2 ^ d * 2 - 2) DIRTY\<rparr> = Inl e"
  shows "IndexedMerkleTree P d = Inl e"
  using assms by (simp add: IndexedMerkleTree_def Let_def)

lemma construct_31: "IndexedMerkleTree P 31 = Inl OutOfBounds"
proof (rule construct_level_Inr [OF _ _ level_loop_31])
  show "init_hashes P \<lparr>depth = 31, total_size = 2 ^ 31, root = 0, leaves = [zero_leaf],
       hashes = replicate (2 ^ 31 * 2 - 2) 0, level_str_idxs = table_31,
       hstats = replicate (2 ^ 31 * 2 - 2) DIRTY\<rparr> = Inl OutOfBounds"
    by (rule init_hashes_31) simp_all
qed simp_all

subsection \<open>The root of a new tree\<close>

lemma root_is_merkle_root:
  assumes "shape t" "hashed P t"
  shows "root t = merkle_root P (depth t) (leaf_hashes P t)"
proof -
  have "compress_native P (hashes t ! (length (hashes t) - 2)) (hashes t ! (length (hashes t) - 1))
          = merkle_root P (depth t) (take (2 ^ depth t) (hashes t))"
    by (rule root_of_flat) (use assms in \<open>simp_all add: shape_def hashed_def\<close>)
  then show ?thesis using assms by (simp add: shape_def hashed_def)
qed

lemma construct_root:
  assumes "1 \<le> d" "d \<le> 30"
  shows "\<exists>t. IndexedMerkleTree P d = Inr t \<and>
           root t = compress_native P (level_hash P (leaf_hash P zero_leaf) (d - 1))
                      (level_hash P (leaf_hash P zero_leaf) (d - 1)) \<and>
           (compress_native P = compress_pair P
              \<longrightarrow> root t = level_hash P (leaf_hash P zero_leaf) d)"
proof -
  obtain t where t: "IndexedMerkleTree P d = Inr t" "shape t" "depth t = d" "hashed P t"
      "leaves t = [zero_leaf]"
    using construct_ok [OF assms] by blast
  obtain n where n: "d = Suc n" using assms(1) by (cases d) auto
  have "[zero_leaf] @ replicate (2 ^ d - 1) zero_leaf = replicate (2 ^ d) zero_leaf"
    by (simp add: n flip: replicate_Suc)
  then have lh: "leaf_hashes P t = replicate (2 ^ Suc n) (leaf_hash P zero_leaf)"
    using t(2,3,5) by (simp add: leaf_hashes_def shape_def n)
  have "root t = merkle_root P (Suc n) (replicate (2 ^ Suc n) (leaf_hash P zero_leaf))"
    using root_is_merkle_root [OF t(2,4)] t(3) lh by (simp add: n)
  then have r: "root t = compress_native P (level_hash P (leaf_hash P zero_leaf) n)
                      (level_hash P (leaf_hash P zero_leaf) n)"
    by (simp only: merkle_root_replicate)
  show ?thesis using t(1) r by (auto simp: n)
qed

subsection \<open>The linked list\<close>

lemma to_uint64_id: "x < 2 ^ 64 \<Longrightarrow> to_uint64 x = x"
  by (simp add: to_uint64_def)

lemma to_size_t_id: "x < 2 ^ 64 \<Longrightarrow> to_size_t x = x"
  by (simp add: to_size_t_def)

lemma chain_bound: "chain ls i xs \<Longrightarrow> i < length ls"
  by (induction ls i xs rule: chain.induct) auto

lemma chain_head: "chain ls i (x # xs) \<Longrightarrow> leaf_value (ls ! i) = x"
  by (cases xs) auto

lemma chain_unchanged:
  assumes "chain ls i zs" "idx < length ls" "leaf_value (ls ! idx) \<notin> set zs"
  shows "chain (ls[idx := l] @ [nl]) i zs"
  using assms
proof (induction ls i zs rule: chain.induct)
  case (1 ls i)
  then show ?case by simp
next
  case (2 ls i x)
  then have "i \<noteq> idx" by auto
  then show ?case using 2 by (simp add: nth_append)
next
  case (3 ls i x y ys)
  then have ne: "i \<noteq> idx" by auto
  have "chain (ls[idx := l] @ [nl]) (nextIndex (ls ! i)) (y # ys)"
    by (rule 3(1)) (use 3 in auto)
  then show ?case using 3 ne by (simp add: nth_append)
qed

lemma insert_loop_found:
  assumes "chain ls i (x # xs)" "sorted_wrt (<) (x # xs)" "x < val" "val < 2 ^ 64"
    "\<forall>y \<in> set xs. y < 2 ^ 64" "val \<notin> set xs" "length ls \<le> 2 ^ 64"
  shows "\<exists>idx. idx < length ls \<and> x \<le> leaf_value (ls ! idx) \<and>
      insert_loop ls val cur i =
        Some (Inr (Found idx (nextIndex (ls ! idx)) (nextValue (ls ! idx))
                     (ls[idx := (ls ! idx)\<lparr>nextValue := val, nextIndex := cur\<rparr>]))) \<and>
      (cur = length ls \<longrightarrow>
         chain (ls[idx := (ls ! idx)\<lparr>nextValue := val, nextIndex := cur\<rparr>]
                  @ [\<lparr>leaf_value = val, nextIndex = nextIndex (ls ! idx),
                       nextValue = nextValue (ls ! idx)\<rparr>]) i (x # insort val xs))"
  using assms
proof (induction xs arbitrary: i x)
  case Nil
  then have i: "i < length ls" "leaf_value (ls ! i) = x" "nextValue (ls ! i) = 0"
      "nextIndex (ls ! i) = 0" by simp_all
  have v: "to_uint64 val = val" "val \<noteq> 0" using Nil by (simp_all add: to_uint64_id)
  have l: "insert_loop ls val cur i =
        Some (Inr (Found i (nextIndex (ls ! i)) (nextValue (ls ! i))
                     (ls[i := (ls ! i)\<lparr>nextValue := val, nextIndex := cur\<rparr>])))"
    by (subst insert_loop.simps) (use i v in \<open>simp add: to_uint64_def\<close>)
  have "chain (ls[i := (ls ! i)\<lparr>nextValue := val, nextIndex := length ls\<rparr>]
                  @ [\<lparr>leaf_value = val, nextIndex = nextIndex (ls ! i),
                       nextValue = nextValue (ls ! i)\<rparr>]) i [x, val]"
    using i by (simp add: nth_append)
  then show ?case using i l by (intro exI [of _ i]) simp
next
  case (Cons y ys)
  then have i: "i < length ls" "leaf_value (ls ! i) = x" "nextValue (ls ! i) = y"
      and rest: "chain ls (nextIndex (ls ! i)) (y # ys)" by simp_all
  have xy: "x < y" and sy: "sorted_wrt (<) (y # ys)" using Cons.prems(2) by simp_all
  have y64: "y < 2 ^ 64" and ys64: "\<forall>z \<in> set ys. z < 2 ^ 64" using Cons.prems(5) by simp_all
  have vy: "val \<noteq> y" and vys: "val \<notin> set ys" using Cons.prems(6) by simp_all
  have u: "to_uint64 val = val" "to_uint64 y = y" "y \<noteq> 0"
    using Cons.prems(4) y64 xy by (simp_all add: to_uint64_id)
  define i' where "i' = nextIndex (ls ! i)"
  have i'b: "i' < length ls" using rest chain_bound by (simp add: i'_def)
  show ?case
  proof (cases "val < y")
    case True
    have l: "insert_loop ls val cur i =
        Some (Inr (Found i (nextIndex (ls ! i)) (nextValue (ls ! i))
                     (ls[i := (ls ! i)\<lparr>nextValue := val, nextIndex := cur\<rparr>])))"
      by (subst insert_loop.simps) (use i u vy True in simp)
    have "x \<notin> set (y # ys)" using Cons.prems(2) by auto
    then have "chain (ls[i := (ls ! i)\<lparr>nextValue := val, nextIndex := length ls\<rparr>]
                  @ [\<lparr>leaf_value = val, nextIndex = i', nextValue = y\<rparr>]) i' (y # ys)"
      using chain_unchanged [OF rest [folded i'_def] i(1)] i(2) by simp
    then have "chain (ls[i := (ls ! i)\<lparr>nextValue := val, nextIndex := length ls\<rparr>]
                  @ [\<lparr>leaf_value = val, nextIndex = nextIndex (ls ! i),
                       nextValue = nextValue (ls ! i)\<rparr>]) i (x # val # y # ys)"
      using i by (simp add: nth_append i'_def)
    moreover have "insort val (y # ys) = val # y # ys" using True by simp
    ultimately show ?thesis using i l by (intro exI [of _ i]) simp
  next
    case False
    then have yv: "y < val" using vy by simp
    have "\<exists>idx. idx < length ls \<and> y \<le> leaf_value (ls ! idx) \<and>
      insert_loop ls val cur i' =
        Some (Inr (Found idx (nextIndex (ls ! idx)) (nextValue (ls ! idx))
                     (ls[idx := (ls ! idx)\<lparr>nextValue := val, nextIndex := cur\<rparr>]))) \<and>
      (cur = length ls \<longrightarrow>
         chain (ls[idx := (ls ! idx)\<lparr>nextValue := val, nextIndex := cur\<rparr>]
                  @ [\<lparr>leaf_value = val, nextIndex = nextIndex (ls ! idx),
                       nextValue = nextValue (ls ! idx)\<rparr>]) i' (y # insort val ys))"
      by (rule Cons.IH [OF rest [folded i'_def] sy yv Cons.prems(4) ys64 vys Cons.prems(7)])
    then obtain idx where idx: "idx < length ls" "y \<le> leaf_value (ls ! idx)"
      "insert_loop ls val cur i' =
        Some (Inr (Found idx (nextIndex (ls ! idx)) (nextValue (ls ! idx))
                     (ls[idx := (ls ! idx)\<lparr>nextValue := val, nextIndex := cur\<rparr>])))"
      "cur = length ls \<longrightarrow>
         chain (ls[idx := (ls ! idx)\<lparr>nextValue := val, nextIndex := cur\<rparr>]
                  @ [\<lparr>leaf_value = val, nextIndex = nextIndex (ls ! idx),
                       nextValue = nextValue (ls ! idx)\<rparr>]) i' (y # insort val ys)"
      by blast
    have ne: "i \<noteq> idx" using idx(2) i(2) xy by auto
    have sz: "to_size_t i' = i'" using i'b Cons.prems(7) by (simp add: to_size_t_id)
    have l: "insert_loop ls val cur i = insert_loop ls val cur i'"
      by (subst insert_loop.simps) (use i u vy False sz in \<open>simp add: i'_def\<close>)
    have "cur = length ls \<longrightarrow>
         chain (ls[idx := (ls ! idx)\<lparr>nextValue := val, nextIndex := cur\<rparr>]
                  @ [\<lparr>leaf_value = val, nextIndex = nextIndex (ls ! idx),
                       nextValue = nextValue (ls ! idx)\<rparr>]) i (x # y # insort val ys)"
      using idx(4) i ne by (simp add: nth_append i'_def)
    moreover have "insort val (y # ys) = y # insort val ys" using yv by simp
    ultimately show ?thesis using idx l xy by (intro exI [of _ idx]) simp
  qed
qed

lemma chain_follow:
  assumes "chain ls i xs" "sorted_wrt (<) xs" "length xs \<le> n" "length ls \<le> 2 ^ 64"
  shows "follow n ls i = xs"
  using assms
proof (induction xs arbitrary: i n)
  case Nil
  then show ?case by simp
next
  case (Cons x xs)
  obtain m where m: "n = Suc m" using Cons.prems(3) by (cases n) auto
  show ?case
  proof (cases xs)
    case Nil
    then show ?thesis using Cons.prems by (simp add: m)
  next
    case (Cons y ys)
    have i: "i < length ls" "leaf_value (ls ! i) = x" "nextValue (ls ! i) = y"
      and rest: "chain ls (nextIndex (ls ! i)) xs" using Cons.prems(1) Cons by simp_all
    have "x < y" using Cons.prems(2) Cons by simp
    then have y0: "y \<noteq> 0" by simp
    have "nextIndex (ls ! i) < length ls" using rest chain_bound by blast
    then have sz: "to_size_t (nextIndex (ls ! i)) = nextIndex (ls ! i)"
      using Cons.prems(4) by (simp add: to_size_t_id)
    have "follow m ls (nextIndex (ls ! i)) = xs"
      by (rule Cons.IH) (use rest Cons.prems m in simp_all)
    then show ?thesis using i y0 sz by (simp add: m)
  qed
qed

subsection \<open>update_element keeps the invariant\<close>

lemma shape_ts: "shape t \<Longrightarrow> 2 \<le> total_size t \<and> total_size t \<le> 1073741824"
  using two_le_pow [of "depth t"] pow2_le_30 [of "depth t"] by (simp add: shape_def)

lemma leaf_hashes_nth:
  assumes "length (leaves t) \<le> total_size t" "k < total_size t"
  shows "leaf_hashes P t ! k
           = leaf_hash P ((leaves t @ replicate (total_size t - length (leaves t)) zero_leaf) ! k)"
  unfolding leaf_hashes_def by (rule nth_map) (use assms in simp)

lemma length_leaf_hashes:
  "length (leaves t) \<le> total_size t \<Longrightarrow> length (leaf_hashes P t) = total_size t"
  by (simp add: leaf_hashes_def)

lemma leaf_update_build_inv:
  assumes sh: "shape t" and h: "hashed P t"
    and b: "cur < total_size t" "idx < total_size t"
  shows "build_inv P (total_size t) (total_size t)
           ((hashes t)[cur := a, idx := b], (hstats t)[idx := DIRTY, cur := DIRTY])"
proof -
  define ts where "ts = total_size t"
  have len: "length (hashes t) = 2 * ts - 2" "length (hstats t) = 2 * ts - 2"
    using sh by (simp_all add: shape_def ts_def)
  have ts2: "2 \<le> ts" using shape_ts [OF sh] by (simp add: ts_def)
  have ok: "\<And>j. ts \<le> j \<Longrightarrow> j < 2 * ts - 2 \<Longrightarrow> node_ok P ts (hashes t) j"
    using h by (simp add: hashed_def ts_def)
  have cb: "cur < ts" "idx < ts" using b by (simp_all add: ts_def)
  have "node_ok P ts ((hashes t)[cur := a, idx := b]) j
          \<or> pending ts ((hstats t)[idx := DIRTY, cur := DIRTY]) j"
    if j: "ts \<le> j" "j < 2 * ts - 2" for j
  proof -
    define c where "c = 2 * (j - ts)"
    have cl: "c < 2 * ts - 2" "c + 1 < 2 * ts - 2" using j by (simp_all add: c_def)
    show ?thesis
    proof (cases "c = cur \<or> c = idx \<or> c + 1 = cur \<or> c + 1 = idx")
      case True
      then have "pending ts ((hstats t)[idx := DIRTY, cur := DIRTY]) j"
        unfolding pending_def c_def [symmetric] using cl len cb
        by (auto simp: nth_list_update)
      then show ?thesis ..
    next
      case False
      have "j \<noteq> cur" "j \<noteq> idx" using j cb by simp_all
      then have "node_ok P ts ((hashes t)[cur := a, idx := b]) j"
        using ok [OF j] False unfolding node_ok_def c_def [symmetric] by simp
      then show ?thesis ..
    qed
  qed
  then show ?thesis using len by (simp add: build_inv_def ts_def)
qed

lemma sorted_insert_strict:
  assumes "sorted_wrt (<) (0 # xs)" "0 < val" "val \<notin> set xs"
  shows "sorted_wrt (<) (0 # insort val xs)"
proof -
  have "sorted xs" "distinct xs" using assms(1) by (simp_all add: strict_sorted_iff)
  then have "sorted (insort val xs)" "distinct (insort val xs)"
    using assms(3) by (simp_all add: sorted_insort distinct_insort)
  then have "sorted_wrt (<) (insort val xs)" by (simp add: strict_sorted_iff)
  moreover have "\<forall>y \<in> set (insort val xs). 0 < y" using assms by (auto simp: set_insort_key)
  ultimately show ?thesis by simp
qed

lemma insert_finish_ok:
  assumes sh: "shape t" and h: "hashed P t"
    and room: "length (leaves t) < total_size t"
    and idx: "idx < length (leaves t)"
    and l1: "length ls1 = length (leaves t)"
      "\<forall>k < length (leaves t). k \<noteq> idx \<longrightarrow> ls1 ! k = leaves t ! k"
  shows "\<exists>t'. insert_finish P t val (length (leaves t)) idx ni nv ls1 = Inr (0, t') \<and>
           shape t' \<and> hashed P t' \<and> depth t' = depth t \<and>
           leaves t' = ls1 @ [\<lparr>leaf_value = val, nextIndex = ni, nextValue = nv\<rparr>]"
proof -
  define ls where "ls = leaves t"
  define ts where "ts = total_size t"
  define n where "n = length ls"
  have tsb: "2 \<le> ts" "ts \<le> 1073741824" using shape_ts [OF sh] by (simp_all add: ts_def)
  have nts: "n < ts" using room by (simp add: n_def ls_def ts_def)
  have idx: "idx < n" using idx by (simp add: n_def ls_def)
  define ls' where "ls' = ls1 @ [\<lparr>leaf_value = val, nextIndex = ni, nextValue = nv\<rparr>]"
  have len': "length ls' = Suc n" using l1(1) by (simp add: ls'_def n_def ls_def)
  define hs' where "hs' = (hashes t)[n := leaf_hash P (ls' ! n), idx := leaf_hash P (ls' ! idx)]"
  define st' where "st' = (hstats t)[idx := DIRTY, n := DIRTY]"
  define t1 where "t1 = t\<lparr>leaves := ls', hashes := hs', hstats := st'\<rparr>"
  have lenh: "length (hashes t) = 2 * ts - 2" "length (hstats t) = 2 * ts - 2"
    using sh by (simp_all add: shape_def ts_def)
  have sh1: "shape t1" using sh by (simp add: shape_def t1_def hs'_def st'_def)
  have inv1: "build_inv P (total_size t1) (total_size t1) (hashes t1, hstats t1)"
    using leaf_update_build_inv [OF sh h, of n idx] nts idx
    by (simp add: t1_def hs'_def st'_def ts_def)
  obtain hs2 st2 where b: "build_hashes_from_leaves P t1 = Inr (t1\<lparr>hashes := hs2, hstats := st2\<rparr>)"
      "length hs2 = 2 * ts - 2" "length st2 = 2 * ts - 2"
      "\<forall>j. ts \<le> j \<and> j < 2 * ts - 2 \<longrightarrow> node_ok P ts hs2 j"
      "take ts hs2 = take ts hs'"
    using build_hashes_ok [OF sh1 inv1] by (auto simp: t1_def ts_def)
  define t2 where "t2 = t1\<lparr>hashes := hs2, hstats := st2\<rparr>"
  define t3 where "t3 = t2\<lparr>root := compress_native P (hs2 ! (length hs2 - 2)) (hs2 ! (length hs2 - 1))\<rparr>"
  have cr: "calculate_root P t2 = Inr t3"
    using b(2) tsb by (simp add: calculate_root_def t2_def t3_def Let_def)
  have g: "n < 2 * ts - 2" "idx < 2 * ts - 2" using nts idx tsb by linarith+
  have fin: "insert_finish P t val n idx ni nv ls1 = Inr (0, t3)"
    unfolding insert_finish_def Let_def ls'_def [symmetric] hs'_def [symmetric]
      st'_def [symmetric] t1_def [symmetric]
    using len' idx g lenh b(1) cr by (simp add: t2_def)
  have le: "length (leaves t) \<le> total_size t" using room by simp
  have tk: "take ts hs' = leaf_hashes P t3"
  proof (rule nth_equalityI)
    show "length (take ts hs') = length (leaf_hashes P t3)"
      using lenh tsb nts len' length_leaf_hashes [of t3 P]
      by (simp add: hs'_def t3_def t2_def t1_def ts_def)
  next
    fix k assume "k < length (take ts hs')"
    then have k: "k < ts" by simp
    have old: "hashes t ! k = leaf_hash P ((ls @ replicate (ts - n) zero_leaf) ! k)"
    proof -
      have "take ts (hashes t) ! k = leaf_hashes P t ! k" using h by (simp add: hashed_def ts_def)
      then show ?thesis using k nts leaf_hashes_nth [of t k P]
        by (simp add: ls_def ts_def n_def)
    qed
    have kl: "k < length (hashes t)" using k lenh tsb by simp
    have new: "leaf_hashes P t3 ! k = leaf_hash P ((ls' @ replicate (ts - Suc n) zero_leaf) ! k)"
      using k nts len' leaf_hashes_nth [of t3 k P]
      by (simp add: t3_def t2_def t1_def ts_def)
    consider "k = idx" | "k = n" | "k < n" "k \<noteq> idx" | "n < k" by linarith
    then have "hs' ! k = leaf_hash P ((ls' @ replicate (ts - Suc n) zero_leaf) ! k)"
    proof cases
      case 1
      then show ?thesis using idx kl len' by (simp add: hs'_def nth_append)
    next
      case 2
      then show ?thesis using idx kl len' by (simp add: hs'_def nth_append)
    next
      case 3
      then have "hs' ! k = hashes t ! k" by (simp add: hs'_def)
      moreover have "ls' ! k = ls ! k"
        using 3 l1 by (simp add: ls'_def nth_append n_def ls_def)
      ultimately show ?thesis using old 3 len' by (simp add: nth_append n_def)
    next
      case 4
      then have "hs' ! k = hashes t ! k" using idx by (simp add: hs'_def)
      then show ?thesis using old 4 len' k by (simp add: nth_append n_def)
    qed
    then show "take ts hs' ! k = leaf_hashes P t3 ! k" using k new by simp
  qed
  have "shape t3" using sh1 b(2,3) by (simp add: shape_def t3_def t2_def t1_def ts_def)
  moreover have "hashed P t3"
    using b(4,5) tk by (simp add: hashed_def t3_def t2_def t1_def ts_def)
  moreover have "depth t3 = depth t" "leaves t3 = ls'"
    by (simp_all add: t3_def t2_def t1_def)
  ultimately show ?thesis using fin by (simp add: n_def ls_def ls'_def)
qed

lemma update_element_new:
  assumes inv: "tree_inv P t xs"
    and v: "0 < val" "val < 2 ^ 64" "val \<notin> set xs"
    and room: "length (leaves t) < total_size t"
  shows "\<exists>t'. update_element P t val = Some (Inr (0, t')) \<and> tree_inv P t' (insort val xs) \<and>
           depth t' = depth t \<and> length (leaves t') = Suc (length (leaves t))"
proof -
  define ls where "ls = leaves t"
  define n where "n = length ls"
  have sh: "shape t" and h: "hashed P t" and li: "leaves_inv ls xs"
    using inv by (simp_all add: tree_inv_def ls_def)
  have ch: "chain ls 0 (0 # xs)" and so: "sorted_wrt (<) (0 # xs)"
    and bd: "\<forall>y \<in> set xs. y < 2 ^ 64" and ln: "n = Suc (length xs)"
    using li by (simp_all add: leaves_inv_def n_def)
  have l64: "length ls \<le> 2 ^ 64" using room shape_ts [OF sh] by (simp add: ls_def)
  from insert_loop_found [OF ch so v(1,2) bd v(3) l64, of n]
  obtain idx where idx: "idx < n"
    and lp: "insert_loop ls val n 0 =
        Some (Inr (Found idx (nextIndex (ls ! idx)) (nextValue (ls ! idx))
                     (ls[idx := (ls ! idx)\<lparr>nextValue := val, nextIndex := n\<rparr>])))"
    and ch': "chain (ls[idx := (ls ! idx)\<lparr>nextValue := val, nextIndex := n\<rparr>]
                  @ [\<lparr>leaf_value = val, nextIndex = nextIndex (ls ! idx),
                       nextValue = nextValue (ls ! idx)\<rparr>]) 0 (0 # insort val xs)"
    by (auto simp: n_def)
  have "\<exists>t'. insert_finish P t val (length (leaves t)) idx (nextIndex (ls ! idx))
                (nextValue (ls ! idx)) (ls[idx := (ls ! idx)\<lparr>nextValue := val, nextIndex := n\<rparr>])
                = Inr (0, t') \<and>
           shape t' \<and> hashed P t' \<and> depth t' = depth t \<and>
           leaves t' = ls[idx := (ls ! idx)\<lparr>nextValue := val, nextIndex := n\<rparr>]
                  @ [\<lparr>leaf_value = val, nextIndex = nextIndex (ls ! idx),
                       nextValue = nextValue (ls ! idx)\<rparr>]"
    by (rule insert_finish_ok [OF sh h room]) (use idx in \<open>simp_all add: n_def ls_def\<close>)
  then obtain t' where t': "insert_finish P t val n idx (nextIndex (ls ! idx))
                (nextValue (ls ! idx)) (ls[idx := (ls ! idx)\<lparr>nextValue := val, nextIndex := n\<rparr>])
                = Inr (0, t')"
      "shape t'" "hashed P t'" "depth t' = depth t"
      "leaves t' = ls[idx := (ls ! idx)\<lparr>nextValue := val, nextIndex := n\<rparr>]
                  @ [\<lparr>leaf_value = val, nextIndex = nextIndex (ls ! idx),
                       nextValue = nextValue (ls ! idx)\<rparr>]"
    by (auto simp: n_def ls_def)
  have ue: "update_element P t val = Some (Inr (0, t'))"
    unfolding update_element_def Let_def ls_def [symmetric] n_def [symmetric]
    using room lp t'(1) by (simp add: n_def ls_def)
  have len': "length (leaves t') = Suc n" by (simp add: t'(5) n_def)
  have ts: "total_size t' = total_size t" using sh t'(2,4) by (simp add: shape_def)
  have "leaves_inv (leaves t') (insort val xs)"
    using ch' sorted_insert_strict [OF so v(1,3)] bd v(2) ln len'
    by (auto simp: leaves_inv_def t'(5) set_insort_key)
  moreover have "length (leaves t') \<le> total_size t'"
    using len' room by (simp add: ts n_def ls_def)
  ultimately show ?thesis using ue t'(2,3,4) len' by (auto simp: tree_inv_def n_def ls_def)
qed

lemma update_element_full:
  assumes "total_size t \<le> length (leaves t)"
  shows "update_element P t val = Some (Inr (0, t))"
  using assms by (simp add: update_element_def)

lemma construct_inv:
  assumes "1 \<le> d" "d \<le> 30"
  shows "\<exists>t. IndexedMerkleTree P d = Inr t \<and> tree_inv P t [] \<and> depth t = d \<and>
           leaves t = [zero_leaf]"
proof -
  obtain t where t: "IndexedMerkleTree P d = Inr t" "shape t" "depth t = d" "hashed P t"
      "leaves t = [zero_leaf]"
    using construct_ok [OF assms] by blast
  have "leaves_inv (leaves t) []" by (simp add: leaves_inv_def t(5) zero_leaf_def)
  moreover have "length (leaves t) \<le> total_size t" using shape_ts [OF t(2)] t(5) by simp
  ultimately show ?thesis using t by (auto simp: tree_inv_def)
qed

lemma update_elements_distinct:
  assumes "tree_inv P t xs" "\<forall>v \<in> set vs. 0 < v \<and> v < 2 ^ 64" "distinct vs"
    "set vs \<inter> set xs = {}" "length (leaves t) + length vs \<le> total_size t"
  shows "\<exists>t' ys. update_elements P t vs = Some (Inr t') \<and> tree_inv P t' ys \<and>
           mset ys = mset vs + mset xs \<and> depth t' = depth t \<and>
           length (leaves t') = length (leaves t) + length vs"
  using assms
proof (induction vs arbitrary: t xs)
  case Nil
  then show ?case by auto
next
  case (Cons v vs)
  have "\<exists>t1. update_element P t v = Some (Inr (0, t1)) \<and> tree_inv P t1 (insort v xs) \<and>
           depth t1 = depth t \<and> length (leaves t1) = Suc (length (leaves t))"
    by (rule update_element_new [OF Cons.prems(1)]) (use Cons.prems in auto)
  then obtain t1 where t1: "update_element P t v = Some (Inr (0, t1))"
      "tree_inv P t1 (insort v xs)" "depth t1 = depth t"
      "length (leaves t1) = Suc (length (leaves t))" by blast
  have ts: "total_size t1 = total_size t"
    using t1(2,3) Cons.prems(1) by (simp add: tree_inv_def shape_def)
  have "\<exists>t' ys. update_elements P t1 vs = Some (Inr t') \<and> tree_inv P t' ys \<and>
           mset ys = mset vs + mset (insort v xs) \<and> depth t' = depth t1 \<and>
           length (leaves t') = length (leaves t1) + length vs"
    by (rule Cons.IH [OF t1(2)]) (use Cons.prems t1(4) ts in \<open>auto simp: set_insort_key\<close>)
  then obtain t' ys where t': "update_elements P t1 vs = Some (Inr t')" "tree_inv P t' ys"
      "mset ys = mset vs + mset (insort v xs)" "depth t' = depth t1"
      "length (leaves t') = length (leaves t1) + length vs" by blast
  show ?case using t1 t' by (intro exI [of _ t'] exI [of _ ys]) simp
qed

lemma linked_values_inv:
  assumes "tree_inv P t xs"
  shows "linked_values t = 0 # xs"
proof -
  have li: "leaves_inv (leaves t) xs" and sh: "shape t" and le: "length (leaves t) \<le> total_size t"
    using assms by (simp_all add: tree_inv_def)
  have "length (leaves t) \<le> 2 ^ 64" using le shape_ts [OF sh] by simp
  then show ?thesis
    unfolding linked_values_def using li
    by (intro chain_follow) (simp_all add: leaves_inv_def)
qed

lemma sorted_run:
  assumes "1 \<le> d" "d \<le> 30" "distinct vs" "\<forall>v \<in> set vs. 0 < v \<and> v < 2 ^ 64"
    "length vs < 2 ^ d"
  shows "\<forall>k \<le> length vs. \<exists>t0 t ys.
           IndexedMerkleTree P d = Inr t0 \<and>
           update_elements P t0 (take k vs) = Some (Inr t) \<and>
           linked_values t = 0 # ys \<and> sorted_wrt (<) (0 # ys) \<and> mset ys = mset (take k vs)"
proof (intro allI impI)
  fix k assume k: "k \<le> length vs"
  obtain t0 where t0: "IndexedMerkleTree P d = Inr t0" "tree_inv P t0 []" "depth t0 = d"
      "leaves t0 = [zero_leaf]"
    using construct_inv [OF assms(1,2)] by blast
  have ts: "total_size t0 = 2 ^ d" using t0(2,3) by (simp add: tree_inv_def shape_def)
  have "\<exists>t ys. update_elements P t0 (take k vs) = Some (Inr t) \<and> tree_inv P t ys \<and>
           mset ys = mset (take k vs) + mset [] \<and> depth t = depth t0 \<and>
           length (leaves t) = length (leaves t0) + length (take k vs)"
  proof (rule update_elements_distinct [OF t0(2)])
    show "\<forall>v \<in> set (take k vs). 0 < v \<and> v < 2 ^ 64" using assms(4) by (auto dest: in_set_takeD)
    show "distinct (take k vs)" using assms(3) by simp
    show "set (take k vs) \<inter> set [] = {}" by simp
    show "length (leaves t0) + length (take k vs) \<le> total_size t0"
      using assms(5) k by (simp add: t0(4) ts)
  qed
  then obtain t ys where t: "update_elements P t0 (take k vs) = Some (Inr t)" "tree_inv P t ys"
      "mset ys = mset (take k vs)" by auto
  have "sorted_wrt (<) (0 # ys)" using t(2) by (simp add: tree_inv_def leaves_inv_def)
  then show "\<exists>t0 t ys.
           IndexedMerkleTree P d = Inr t0 \<and>
           update_elements P t0 (take k vs) = Some (Inr t) \<and>
           linked_values t = 0 # ys \<and> sorted_wrt (<) (0 # ys) \<and> mset ys = mset (take k vs)"
    using t0(1) t(1,3) linked_values_inv [OF t(2)] by blast
qed

subsection \<open>Evaluation on small trees\<close>

lemma upt_lits:
  "[Suc 0..<Suc 0] = ([]::nat list)" "[Suc 0..<2] = [Suc 0]" "[Suc 0..<3] = [Suc 0,2::nat]"
  "[0..<Suc 0] = [0::nat]" "[0..<2] = [0,Suc 0]" "[0..<3] = [0,Suc 0,2::nat]"
  "[0..<4] = [0,Suc 0,2,3::nat]" "[0..<8] = [0,Suc 0,2,3,4,5,6,7::nat]"
  "[2..<2] = ([]::nat list)" "[4..<6] = [4,5::nat]" "[8..<14] = [8,9,10,11,12,13::nat]"
  by code_simp+

lemma list_update_Cons_numeral:
  "(x # xs)[numeral n := v] = x # xs[pred_numeral n := v]"
  by (simp add: numeral_eq_Suc)

lemma replicate_numeral: "replicate (numeral n) x = x # replicate (pred_numeral n) x"
  by (simp add: numeral_eq_Suc)

lemmas eval_defs =
  IndexedMerkleTree_def init_hashes_def build_hashes_from_leaves_def build_step_def
  locate_def locate_step_def calculate_root_def update_element_def insert_finish_def
  insert_loop.simps shl_int_def to_uint64_def to_size_t_def zero_leaf_def Let_def
  get_hash_path_def pair_at_def linked_values_def list_update_Cons_numeral replicate_numeral
  upt_lits test_primitives_def

lemmas eval_congs =
  let_weak_cong option.case_cong_weak sum.case_cong_weak walk.case_cong_weak

lemma scenario_run:
  "\<exists>t0 t. IndexedMerkleTree P 3 = Inr t0 \<and>
         update_elements P t0 [30, 10, 20, 50] = Some (Inr t) \<and>
         leaves t = [\<lparr>leaf_value = 0, nextIndex = 2, nextValue = 10\<rparr>,
                     \<lparr>leaf_value = 30, nextIndex = 4, nextValue = 50\<rparr>,
                     \<lparr>leaf_value = 10, nextIndex = 3, nextValue = 20\<rparr>,
                     \<lparr>leaf_value = 20, nextIndex = 1, nextValue = 30\<rparr>,
                     \<lparr>leaf_value = 50, nextIndex = 0, nextValue = 0\<rparr>] \<and>
         length (leaves t) = 5"
proof -
  have "case IndexedMerkleTree P 3 of
          Inl e \<Rightarrow> False
        | Inr t0 \<Rightarrow>
            (case update_elements P t0 [30, 10, 20, 50] of
               Some (Inr t) \<Rightarrow>
                 leaves t = [\<lparr>leaf_value = 0, nextIndex = 2, nextValue = 10\<rparr>,
                     \<lparr>leaf_value = 30, nextIndex = 4, nextValue = 50\<rparr>,
                     \<lparr>leaf_value = 10, nextIndex = 3, nextValue = 20\<rparr>,
                     \<lparr>leaf_value = 20, nextIndex = 1, nextValue = 30\<rparr>,
                     \<lparr>leaf_value = 50, nextIndex = 0, nextValue = 0\<rparr>]
             | _ \<Rightarrow> False)"
    by (simp add: eval_defs cong: eval_congs)
  then show ?thesis by (auto split: sum.splits option.splits)
qed

lemma construct_tree_1: "IndexedMerkleTree test_primitives 1 = Inr tree_1"
  by (simp add: eval_defs tree_1_def cong: eval_congs)

lemmas tree_defs = tree_1_def tree_1_5_def tree_2_def tree_2_30_def tree_2_30_0_def

lemma construct_tree_2: "IndexedMerkleTree test_primitives 2 = Inr tree_2"
  by (simp add: eval_defs tree_defs cong: eval_congs)

lemma tree_1_insert_5: "update_element test_primitives tree_1 5 = Some (Inr (0, tree_1_5))"
  by (simp add: eval_defs tree_defs cong: eval_congs)

lemma tree_2_insert_30: "update_element test_primitives tree_2 30 = Some (Inr (0, tree_2_30))"
  by (simp add: eval_defs tree_defs cong: eval_congs)

subsection \<open>Trees reached by insertions\<close>

lemma update_elements_append:
  "update_elements P t (vs @ ws) =
     (case update_elements P t vs of
        None \<Rightarrow> None
      | Some (Inl e) \<Rightarrow> Some (Inl e)
      | Some (Inr t') \<Rightarrow> update_elements P t' ws)"
  by (induction vs arbitrary: t) (auto split: option.splits sum.splits)

lemma full_run:
  assumes "1 \<le> d" "d \<le> 30" "distinct vs" "\<forall>v \<in> set vs. 0 < v \<and> v < 2 ^ 64"
    "length vs = 2 ^ d"
  shows "\<exists>t0 t. IndexedMerkleTree P d = Inr t0 \<and> update_elements P t0 vs = Some (Inr t) \<and>
           length (leaves t) = total_size t \<and> total_size t = 2 ^ d \<and>
           mset (tl (linked_values t)) = mset (butlast vs) \<and>
           (\<forall>v. update_element P t v = Some (Inr (0, t)))"
proof -
  obtain t0 where t0: "IndexedMerkleTree P d = Inr t0" "tree_inv P t0 []" "depth t0 = d"
      "leaves t0 = [zero_leaf]"
    using construct_inv [OF assms(1,2)] by blast
  have ts: "total_size t0 = 2 ^ d" using t0(2,3) by (simp add: tree_inv_def shape_def)
  have ne: "vs \<noteq> []" using assms(5) by auto
  then have sp: "vs = butlast vs @ [last vs]" by simp
  have "\<exists>t ys. update_elements P t0 (butlast vs) = Some (Inr t) \<and> tree_inv P t ys \<and>
           mset ys = mset (butlast vs) + mset [] \<and> depth t = depth t0 \<and>
           length (leaves t) = length (leaves t0) + length (butlast vs)"
  proof (rule update_elements_distinct [OF t0(2)])
    show "\<forall>v \<in> set (butlast vs). 0 < v \<and> v < 2 ^ 64" using assms(4) by (auto dest: in_set_butlastD)
    show "distinct (butlast vs)" using assms(3) by (rule distinct_butlast)
    show "set (butlast vs) \<inter> set [] = {}" by simp
    show "length (leaves t0) + length (butlast vs) \<le> total_size t0"
      using assms(5) by (simp add: t0(4) ts)
  qed
  then obtain t ys where t: "update_elements P t0 (butlast vs) = Some (Inr t)" "tree_inv P t ys"
      "mset ys = mset (butlast vs)" "depth t = d"
      "length (leaves t) = length (leaves t0) + length (butlast vs)"
    using t0(3) by auto
  have tst: "total_size t = 2 ^ d" using t(2,4) by (simp add: tree_inv_def shape_def)
  have full: "length (leaves t) = total_size t"
    using t(5) assms(5) by (simp add: t0(4) tst)
  have noop: "update_element P t v = Some (Inr (0, t))" for v
    by (rule update_element_full) (simp add: full)
  have "update_elements P t0 (butlast vs @ [last vs]) = Some (Inr t)"
    by (simp add: update_elements_append t(1) noop)
  then have "update_elements P t0 vs = Some (Inr t)" using sp by simp
  moreover have "mset (tl (linked_values t)) = mset (butlast vs)"
    using linked_values_inv [OF t(2)] t(3) by simp
  ultimately show ?thesis using t0(1) full tst noop by blast
qed

subsection \<open>The decisions of the insertion loop\<close>

lemma same_links_nth:
  assumes "same_links ls ls'" "i < length ls"
  shows "to_uint64 (nextValue (ls ! i)) = to_uint64 (nextValue (ls' ! i))"
    "(nextValue (ls ! i) = 0) = (nextValue (ls' ! i) = 0)"
    "to_size_t (nextIndex (ls ! i)) = to_size_t (nextIndex (ls' ! i))"
  using assms by (auto simp: same_links_def list_all2_conv_all_nth)

lemma same_links_length: "same_links ls ls' \<Longrightarrow> length ls = length ls'"
  by (simp add: same_links_def list_all2_lengthD)

lemma same_links_sym: "same_links ls ls' \<Longrightarrow> same_links ls' ls"
  by (auto simp: same_links_def list_all2_conv_all_nth)

lemma insert_loop_low64_step:
  assumes IH: "\<And>ls val cur idx r. lp ls val cur idx = Some r \<Longrightarrow>
           \<forall>ls' val' cur'. to_uint64 val = to_uint64 val' \<and> same_links ls ls' \<longrightarrow>
             (\<exists>r'. insert_loop ls' val' cur' idx = Some r' \<and>
                   map_sum id decision r' = map_sum id decision r)"
    and body: "(if length ls \<le> idx then Some (Inl OutOfBounds)
      else if to_uint64 (nextValue (ls ! idx)) = to_uint64 val then Some (Inr Duplicate)
      else if to_uint64 val < to_uint64 (nextValue (ls ! idx)) \<or> nextValue (ls ! idx) = 0
      then Some (Inr (Found idx (nextIndex (ls ! idx)) (nextValue (ls ! idx))
                        (ls[idx := (ls ! idx)\<lparr>nextValue := val, nextIndex := cur\<rparr>])))
      else lp ls val cur (to_size_t (nextIndex (ls ! idx)))) = Some r"
    and h: "to_uint64 val = to_uint64 val'" "same_links ls ls'"
  shows "\<exists>r'. insert_loop ls' val' cur' idx = Some r' \<and>
               map_sum id decision r' = map_sum id decision r"
proof -
  have len: "length ls' = length ls" using h(2) same_links_length by auto
  show ?thesis
  proof (cases "idx \<ge> length ls")
    case True
    then have "r = Inl OutOfBounds" using body by simp
    moreover have "insert_loop ls' val' cur' idx = Some (Inl OutOfBounds)"
      by (subst insert_loop.simps) (use True len in simp)
    ultimately show ?thesis by simp
  next
    case False
    then have i: "idx < length ls" by simp
    note s = same_links_nth [OF h(2) i]
    consider (dup) "to_uint64 (nextValue (ls ! idx)) = to_uint64 val"
      | (found) "to_uint64 (nextValue (ls ! idx)) \<noteq> to_uint64 val"
          "to_uint64 (nextValue (ls ! idx)) > to_uint64 val \<or> nextValue (ls ! idx) = 0"
      | (go) "to_uint64 (nextValue (ls ! idx)) \<noteq> to_uint64 val"
          "\<not> (to_uint64 (nextValue (ls ! idx)) > to_uint64 val \<or> nextValue (ls ! idx) = 0)"
      by auto
    then show ?thesis
    proof cases
      case dup
      then have "r = Inr Duplicate" using body i by simp
      moreover have "insert_loop ls' val' cur' idx = Some (Inr Duplicate)"
        by (subst insert_loop.simps) (use dup i len s h in simp)
      ultimately show ?thesis by simp
    next
      case found
      then have "map_sum id decision r = Inr (Some idx)" using body i by auto
      moreover have "\<exists>a b c. insert_loop ls' val' cur' idx = Some (Inr (Found idx a b c))"
        by (subst insert_loop.simps) (use found i len s h in auto)
      ultimately show ?thesis by auto
    next
      case go
      then have "lp ls val cur (to_size_t (nextIndex (ls ! idx))) = Some r"
        using body i by simp
      from IH [OF this] h
      obtain r' where r': "insert_loop ls' val' cur' (to_size_t (nextIndex (ls ! idx))) = Some r'"
          "map_sum id decision r' = map_sum id decision r" by blast
      have "insert_loop ls' val' cur' idx
              = insert_loop ls' val' cur' (to_size_t (nextIndex (ls ! idx)))"
        by (subst insert_loop.simps) (use go i len s h in auto)
      then show ?thesis using r' by simp
    qed
  qed
qed

lemma insert_loop_low64_Some:
  assumes "insert_loop ls val cur idx = Some r"
  shows "\<forall>ls' val' cur'. to_uint64 val = to_uint64 val' \<and> same_links ls ls' \<longrightarrow>
           (\<exists>r'. insert_loop ls' val' cur' idx = Some r' \<and>
                 map_sum id decision r' = map_sum id decision r)"
  by (rule insert_loop.raw_induct
        [where P = "\<lambda>ls val cur idx r. \<forall>ls' val' cur'.
             to_uint64 val = to_uint64 val' \<and> same_links ls ls' \<longrightarrow>
               (\<exists>r'. insert_loop ls' val' cur' idx = Some r' \<and>
                     map_sum id decision r' = map_sum id decision r)", OF _ assms])
    (blast intro: insert_loop_low64_step)

lemma decision_low64:
  assumes "to_uint64 val = to_uint64 val'" "same_links ls ls'"
  shows "map_option (map_sum id decision) (insert_loop ls val cur idx)
           = map_option (map_sum id decision) (insert_loop ls' val' cur' idx)"
proof (cases "insert_loop ls val cur idx")
  case None
  have "insert_loop ls' val' cur' idx = None"
  proof (rule ccontr)
    assume "insert_loop ls' val' cur' idx \<noteq> None"
    then obtain r' where "insert_loop ls' val' cur' idx = Some r'" by auto
    from insert_loop_low64_Some [OF this] assms same_links_sym
    obtain r where "insert_loop ls val cur idx = Some r" by metis
    then show False using None by simp
  qed
  then show ?thesis using None by simp
next
  case (Some r)
  from insert_loop_low64_Some [OF this] assms
  obtain r' where "insert_loop ls' val' cur' idx = Some r'"
      "map_sum id decision r' = map_sum id decision r" by blast
  then show ?thesis using Some by simp
qed

lemma tree_2_30_leaves:
  "leaves tree_2_30 = [\<lparr>leaf_value = 0, nextIndex = 1, nextValue = 30\<rparr>,
                       \<lparr>leaf_value = 30, nextIndex = 0, nextValue = 0\<rparr>]"
  by (simp add: tree_defs)

subsection \<open>The hash path\<close>

lemma length_path_from: "length (path_from hs ts x n) = n"
  by (induction n arbitrary: x) simp_all

lemma pair_at_even_length:
  assumes "x < length hs" "even (length hs)"
  shows "pair_at hs x = Inr (hs ! (x - x mod 2), hs ! (x - x mod 2 + 1))"
proof (cases "even x")
  case True
  then have "x + 1 < length hs" using assms by presburger
  then show ?thesis using True by (simp add: pair_at_def)
next
  case False
  then have "x mod 2 = 1" by (simp add: odd_iff_mod_2_eq_one)
  then show ?thesis using assms False by (simp add: pair_at_def)
qed

lemma pair_at_beyond:
  assumes "length hs \<le> x" "even (length hs)"
  shows "pair_at hs x = Inl OutOfBounds"
  using assms by (auto simp: pair_at_def)

lemma pair_at_error: "pair_at hs x = Inl e \<Longrightarrow> e = OutOfBounds"
  by (auto simp: pair_at_def split: if_splits)

lemma path_loop_eq:
  assumes "1 \<le> l" "l \<le> d" "length path = d" "length hs = 2 * ts - 2" "ts = 2 ^ d"
    "1 < d \<longrightarrow> 1 < length lsis \<and> lsis ! 1 = ts" "ts \<le> 2 ^ 30"
    "2 * ts - 2 * 2 ^ (d - l + 1) \<le> 2 * x" "x < 2 * ts - 2 ^ (d - l + 1)"
  shows "path_loop hs lsis [l..<d] x path
           = Inr (take l path @ path_from hs ts (ts + x div 2) (d - l))"
  using assms(1,2,3,8,9)
proof (induction "d - l" arbitrary: l x path)
  case 0
  then show ?case by simp
next
  case (Suc k)
  then have lt: "l < d" by simp
  define x' where "x' = ts + x div 2"
  have e: "d - l + 1 = Suc (d - l)" "d - l = Suc (d - Suc l)" "d - Suc l + 1 = d - l"
    using lt by simp_all
  have p: "(2::nat) ^ (d - l) \<le> 2 ^ d" by (rule power_increasing) simp_all
  have p1: "(1::nat) \<le> 2 ^ (d - Suc l)" by simp
  have pe: "(2::nat) ^ (d - l) = 2 * 2 ^ (d - Suc l)" using e(2) by simp
  have xb: "x < 2 * ts" using Suc.prems(5) by simp
  have "1 < d" using lt Suc.prems(1) by simp
  then have l1: "1 < length lsis" "lsis ! 1 = ts" using assms(6) by blast+
  have m: "(lsis ! 1 + x div 2) mod 2 ^ 64 = x'"
  proof -
    have "ts + x div 2 < 2 ^ 64" using xb assms(7) by simp
    then show ?thesis unfolding l1(2) x'_def by simp
  qed
  have lo: "2 * ts - 2 * 2 ^ (d - l) \<le> 2 * x'"
    using Suc.prems(4) p assms(5) by (simp add: x'_def e(1))
  have hi: "x' < 2 * ts - 2 ^ (d - l)"
    using Suc.prems(5) p assms(5) unfolding x'_def e(1) by (simp add: pe; linarith)
  have inb: "x' < length hs" using hi assms(4) pe p1 by linarith
  have ev: "even (length hs)" using assms(4) by simp
  have pa: "pair_at hs x' = Inr (hs ! (x' - x' mod 2), hs ! (x' - x' mod 2 + 1))"
    by (rule pair_at_even_length [OF inb ev])
  define path' where "path' = path[l := (hs ! (x' - x' mod 2), hs ! (x' - x' mod 2 + 1))]"
  have IH: "path_loop hs lsis [Suc l..<d] x' path'
              = Inr (take (Suc l) path' @ path_from hs ts (ts + x' div 2) (d - Suc l))"
  proof (rule Suc.hyps(1))
    show "k = d - Suc l" using Suc.hyps(2) by simp
    show "1 \<le> Suc l" by simp
    show "Suc l \<le> d" using lt by simp
    show "length path' = d" using Suc.prems(3) by (simp add: path'_def)
    show "2 * ts - 2 * 2 ^ (d - Suc l + 1) \<le> 2 * x'" unfolding e(3) by (rule lo)
    show "x' < 2 * ts - 2 ^ (d - Suc l + 1)" unfolding e(3) by (rule hi)
  qed
  have tk: "take (Suc l) path' = take l path @ [(hs ! (x' - x' mod 2), hs ! (x' - x' mod 2 + 1))]"
    using lt Suc.prems(3) by (simp add: path'_def take_Suc_conv_app_nth)
  have u: "[l..<d] = l # [Suc l..<d]" using lt by (rule upt_conv_Cons)
  have "path_loop hs lsis [l..<d] x path = path_loop hs lsis [Suc l..<d] x' path'"
    unfolding u path_loop.simps Let_def m pa using lt l1(1) Suc.prems(3)
    by (simp add: path'_def)
  then show ?case using IH tk by (simp add: e(2) x'_def)
qed


lemma get_hash_path_ok:
  assumes sh: "shape t" and i: "idx < total_size t"
  shows "get_hash_path t idx
           = Inr (path_from (hashes t) (total_size t) idx (depth t), t)"
proof -
  define d where "d = depth t"
  define ts where "ts = total_size t"
  define hs where "hs = hashes t"
  have d: "1 \<le> d" "d \<le> 30" and ts: "ts = 2 ^ d" and len: "length hs = 2 * ts - 2"
    and tb: "level_str_idxs t = level_table d"
    using sh by (simp_all add: shape_def d_def ts_def hs_def)
  have ts2: "2 \<le> ts" "ts \<le> 2 ^ 30"
    using shape_ts [OF sh] by (simp_all add: ts_def)
  have ev: "even (length hs)" using len by simp
  have inb: "idx < length hs" using i len ts2 by (simp add: ts_def)
  have pa: "pair_at hs idx = Inr (hs ! (idx - idx mod 2), hs ! (idx - idx mod 2 + 1))"
    by (rule pair_at_even_length [OF inb ev])
  define path where "path = (replicate d (0, 0))[0 := (hs ! (idx - idx mod 2), hs ! (idx - idx mod 2 + 1))]"
  have lp: "length path = d" by (simp add: path_def)
  have tk: "take 1 path = [(hs ! (idx - idx mod 2), hs ! (idx - idx mod 2 + 1))]"
  proof -
    obtain k where "d = Suc k" using d(1) by (cases d) auto
    then show ?thesis by (simp add: path_def)
  qed
  have tab: "1 < d \<longrightarrow> 1 < length (level_table d) \<and> level_table d ! 1 = ts"
    using level_table_nth [of 1 d] level_start_1 [of d] by (simp add: length_level_table ts)
  have e: "d - 1 + 1 = d" using d(1) by simp
  have q: "2 * ts - 2 * 2 ^ (d - 1 + 1) \<le> 2 * idx" "idx < 2 * ts - 2 ^ (d - 1 + 1)"
    unfolding e using i ts by (simp_all add: ts_def)
  have loop: "path_loop hs (level_table d) [1..<d] idx path
                = Inr (take 1 path @ path_from hs ts (ts + idx div 2) (d - 1))"
    by (rule path_loop_eq [OF _ d(1) lp len ts tab ts2(2) q]) simp
  have pf: "path_from hs ts idx d = take 1 path @ path_from hs ts (ts + idx div 2) (d - 1)"
  proof -
    obtain k where "d = Suc k" using d(1) by (cases d) auto
    then show ?thesis using tk by simp
  qed
  have "0 < length (replicate d ((0::nat), (0::nat)))" using d(1) by simp
  then show ?thesis
    unfolding get_hash_path_def Let_def d_def [symmetric] hs_def [symmetric] tb
    using pa loop pf by (simp add: path_def ts_def)
qed




lemma tree_2_inserts_30: "update_elements test_primitives tree_2 [30] = Some (Inr tree_2_30)"
  using tree_2_insert_30 by simp

lemma path_loop_oob:
  assumes "1 \<le> l" "l < d" "length hs = 2 * ts - 2" "ts = 2 ^ d" "ts \<le> 2 ^ 30"
    "1 < length lsis" "lsis ! 1 = ts"
    "2 * ts - 2 ^ (d - l + 1) \<le> x" "x < 2 ^ 64"
  shows "path_loop hs lsis [l..<d] x path = Inl OutOfBounds"
  using assms(1,2,8,9)
proof (induction "d - l" arbitrary: l x path)
  case 0
  then show ?case by simp
next
  case (Suc k)
  define x' where "x' = ts + x div 2"
  have e: "d - l + 1 = Suc (d - l)" using Suc.prems(2) by simp
  have p: "(2::nat) ^ (d - l) \<le> 2 ^ d" by (rule power_increasing) simp_all
  have m: "(lsis ! 1 + x div 2) mod 2 ^ 64 = x'"
  proof -
    have "ts + x div 2 < 2 ^ 64" using Suc.prems(4) assms(5) by simp
    then show ?thesis unfolding assms(7) x'_def by simp
  qed
  have x64: "x' < 2 ^ 64" using Suc.prems(4) assms(5) by (simp add: x'_def)
  have lo: "2 * ts - 2 ^ (d - l) \<le> x'"
    using Suc.prems(3) p assms(4) unfolding x'_def e by (simp; linarith)
  have ev: "even (length hs)" using assms(3) by simp
  have u: "[l..<d] = l # [Suc l..<d]" using Suc.prems(2) by (rule upt_conv_Cons)
  show ?case
  proof (cases "pair_at hs x'")
    case (Inl err)
    then have "err = OutOfBounds" by (rule pair_at_error)
    then show ?thesis unfolding u path_loop.simps Let_def m using Inl assms(6) by simp
  next
    case (Inr pr)
    have nl: "Suc l < d"
    proof (rule ccontr)
      assume "\<not> Suc l < d"
      then have "d - l = 1" using Suc.prems(2) by simp
      then have "length hs \<le> x'" using lo assms(3) by simp
      then have "pair_at hs x' = Inl OutOfBounds" using ev by (rule pair_at_beyond)
      then show False using Inr by simp
    qed
    have e2: "d - Suc l + 1 = d - l" using nl by simp
    have IH: "path_loop hs lsis [Suc l..<d] x' (path[l := pr]) = Inl OutOfBounds"
    proof (rule Suc.hyps(1))
      show "k = d - Suc l" using Suc.hyps(2) by simp
      show "1 \<le> Suc l" by simp
      show "Suc l < d" by (rule nl)
      show "2 * ts - 2 ^ (d - Suc l + 1) \<le> x'" unfolding e2 by (rule lo)
      show "x' < 2 ^ 64" by (rule x64)
    qed
    show ?thesis unfolding u path_loop.simps Let_def m using Inr assms(6) IH by simp
  qed
qed

lemma get_hash_path_oob:
  assumes sh: "shape t" and i: "total_size t \<le> idx" "idx < 2 ^ 64"
  shows "get_hash_path t idx = Inl OutOfBounds"
proof -
  define d where "d = depth t"
  define ts where "ts = total_size t"
  define hs where "hs = hashes t"
  have d: "1 \<le> d" "d \<le> 30" and ts: "ts = 2 ^ d" and len: "length hs = 2 * ts - 2"
    and tb: "level_str_idxs t = level_table d"
    using sh by (simp_all add: shape_def d_def ts_def hs_def)
  have ts2: "2 \<le> ts" "ts \<le> 2 ^ 30" using shape_ts [OF sh] by (simp_all add: ts_def)
  have ev: "even (length hs)" using len by simp
  show ?thesis
  proof (cases "pair_at hs idx")
    case (Inl err)
    then have "err = OutOfBounds" by (rule pair_at_error)
    then show ?thesis using Inl d(1)
      by (simp add: get_hash_path_def Let_def hs_def d_def)
  next
    case (Inr pr)
    have d2: "1 < d"
    proof (rule ccontr)
      assume "\<not> 1 < d"
      then have "d = 1" using d(1) by simp
      then have "length hs \<le> idx" using len ts i(1) by (simp add: ts_def)
      then have "pair_at hs idx = Inl OutOfBounds" using ev by (rule pair_at_beyond)
      then show False using Inr by simp
    qed
    have e: "d - 1 + 1 = d" using d(1) by simp
    have lo: "2 * ts - 2 ^ (d - 1 + 1) \<le> idx" unfolding e using i(1) ts by (simp add: ts_def)
    have "path_loop hs (level_table d) [1..<d] idx ((replicate d (0, 0))[0 := pr]) = Inl OutOfBounds"
      by (rule path_loop_oob [OF _ d2 len ts ts2(2) _ _ lo i(2)])
        (use d2 level_table_nth [of 1 d] level_start_1 [of d] in
          \<open>simp_all add: length_level_table ts\<close>)
    then show ?thesis using Inr d(1)
      by (simp add: get_hash_path_def Let_def hs_def [symmetric] d_def [symmetric] tb)
  qed
qed

subsection \<open>The full-rehash implementation: rehash and get_hash_path\<close>

lemmas rehash_eval_defs =
  IndexedMerkleTree_rehash_def init_hashes_rehash_def rehash_def rehash_step_def
  calculate_root_rehash_def get_hash_path_rehash_def update_element_rehash_def
  insert_loop_rehash.simps rtree_2_def rtree_2_30_def rtree_2_30_path_def

lemma construct_rtree_2: "IndexedMerkleTree_rehash test_primitives 2 = Inr rtree_2"
  by (simp add: eval_defs rehash_eval_defs cong: eval_congs)

lemma rtree_2_insert_30:
  "update_element_rehash test_primitives rtree_2 30 = Some (Inr (0, rtree_2_30))"
  by (simp add: eval_defs rehash_eval_defs cong: eval_congs)

lemma rtree_2_30_get_path:
  "get_hash_path_rehash test_primitives rtree_2_30 0
     = Inr ([(214, 31), (522, 6)], rtree_2_30_path)"
  by (simp add: eval_defs rehash_eval_defs cong: eval_congs)

lemma rehash_step_eq:
  assumes d: "2 \<le> d" "d \<le> 30"
    and i: "2 ^ d \<le> i" "i < 2 * 2 ^ d - 2"
    and len: "length hs = 2 * 2 ^ d - 2"
  shows "rehash_step P (level_table d) i hs =
           Inr (hs[i := compress_pair P (hs ! (2 * (i - 2 ^ d))) (hs ! (2 * (i - 2 ^ d) + 1))])"
proof -
  define c where "c = 2 * (i - 2 ^ d)"
  have ch: "snd (locate (level_table d) i) + (i - fst (locate (level_table d) i)) * 2 = c"
    unfolding c_def by (rule locate_child) (use d i in simp_all)
  have b: "(2::nat) ^ d \<le> 1073741824" by (rule pow2_le_30) (rule d)
  have c1: "c + 1 < i" using i by (simp add: c_def)
  have c64: "c < 2 ^ 64" "c + 1 < 2 ^ 64" using c1 i b by simp_all
  have m: "c mod 2 ^ 64 = c" "(c + 1) mod 2 ^ 64 = c + 1" "Suc c mod 2 ^ 64 = Suc c"
    using c64 by simp_all
  show ?thesis
    unfolding rehash_step_def Let_def ch c_def [symmetric] m
    using c1 i len by simp
qed

lemma rehash_step_frame:
  assumes "rehash_step P lsis i hs = Inr hs'"
  shows "length hs' = length hs \<and> (\<forall>k. k \<noteq> i \<longrightarrow> hs' ! k = hs ! k)"
  using assms by (auto simp: rehash_step_def Let_def split: if_splits)

lemma rehash_loop_frame:
  assumes "rehash_loop P lsis js hs = Inr hs'"
  shows "length hs' = length hs \<and> (\<forall>k. k \<notin> set js \<longrightarrow> hs' ! k = hs ! k)"
  using assms
proof (induction js arbitrary: hs)
  case Nil
  then show ?case by simp
next
  case (Cons i js)
  then obtain hs1 where s: "rehash_step P lsis i hs = Inr hs1"
      and r: "rehash_loop P lsis js hs1 = Inr hs'"
    by (auto split: sum.splits)
  show ?case using Cons.IH [OF r] rehash_step_frame [OF s] by simp
qed

lemma rehash_loop_ok:
  assumes d: "2 \<le> d" "d \<le> 30"
    and i: "2 ^ d \<le> i" "i \<le> 2 * 2 ^ d - 2"
    and len: "length hs = 2 * 2 ^ d - 2"
    and inv: "\<forall>j. 2 ^ d \<le> j \<and> j < i \<longrightarrow> node_ok P (2 ^ d) hs j"
  shows "\<exists>hs'. rehash_loop P (level_table d) [i..<2 * 2 ^ d - 2] hs = Inr hs' \<and>
           (\<forall>j. 2 ^ d \<le> j \<and> j < 2 * 2 ^ d - 2 \<longrightarrow> node_ok P (2 ^ d) hs' j)"
  using i len inv
proof (induction "2 * 2 ^ d - 2 - i" arbitrary: i hs)
  case 0
  then have "i = 2 * 2 ^ d - 2" by simp
  then show ?case using 0 by simp
next
  case (Suc n)
  then have lt: "i < 2 * 2 ^ d - 2" by simp
  define c where "c = 2 * (i - 2 ^ d)"
  define hs1 where "hs1 = hs[i := compress_pair P (hs ! c) (hs ! (c + 1))]"
  have s1: "rehash_step P (level_table d) i hs = Inr hs1"
    unfolding hs1_def c_def by (rule rehash_step_eq [OF d Suc.prems(1) lt Suc.prems(3)])
  have c1: "c + 1 < i" using lt Suc.prems(1) by (simp add: c_def)
  have l1: "length hs1 = 2 * 2 ^ d - 2" using Suc.prems(3) by (simp add: hs1_def)
  have ok: "\<forall>j. 2 ^ d \<le> j \<and> j < Suc i \<longrightarrow> node_ok P (2 ^ d) hs1 j"
  proof (intro allI impI)
    fix j assume j: "2 ^ d \<le> j \<and> j < Suc i"
    show "node_ok P (2 ^ d) hs1 j"
    proof (cases "j = i")
      case True
      then show ?thesis
        using c1 lt Suc.prems(3) by (simp add: node_ok_def hs1_def c_def)
    next
      case False
      then have ji: "j < i" using j by simp
      then have "2 * (j - 2 ^ d) + 1 < i" using j lt by linarith
      then have "hs1 ! j = hs ! j" "hs1 ! (2 * (j - 2 ^ d)) = hs ! (2 * (j - 2 ^ d))"
          "hs1 ! (2 * (j - 2 ^ d) + 1) = hs ! (2 * (j - 2 ^ d) + 1)"
        using ji by (simp_all add: hs1_def)
      then show ?thesis using Suc.prems(4) j ji by (simp add: node_ok_def)
    qed
  qed
  have "\<exists>hs'. rehash_loop P (level_table d) [Suc i..<2 * 2 ^ d - 2] hs1 = Inr hs' \<and>
           (\<forall>j. 2 ^ d \<le> j \<and> j < 2 * 2 ^ d - 2 \<longrightarrow> node_ok P (2 ^ d) hs' j)"
    by (rule Suc.hyps(1)) (use Suc lt l1 ok in simp_all)
  then obtain hs' where hs': "rehash_loop P (level_table d) [Suc i..<2 * 2 ^ d - 2] hs1 = Inr hs'"
      "\<forall>j. 2 ^ d \<le> j \<and> j < 2 * 2 ^ d - 2 \<longrightarrow> node_ok P (2 ^ d) hs' j"
    by blast
  have "rehash_loop P (level_table d) [i..<2 * 2 ^ d - 2] hs = Inr hs'"
    using lt s1 hs'(1) by (simp add: upt_conv_Cons)
  then show ?case using hs'(2) by blast
qed

lemma rehash_ok:
  assumes sh: "shape_r s" and len: "length hs = 2 * total_size_r s - 2"
  shows "\<exists>hs'. rehash P s hs = Inr hs' \<and> length hs' = length hs \<and>
           take (total_size_r s) hs' = take (total_size_r s) hs \<and>
           (\<forall>j. total_size_r s \<le> j \<and> j < 2 * total_size_r s - 2
                \<longrightarrow> node_ok P (total_size_r s) hs' j)"
proof -
  define d where "d = depth_r s"
  define ts where "ts = total_size_r s"
  have d: "1 \<le> d" "d \<le> 30" and ts: "ts = 2 ^ d"
    using sh by (simp_all add: shape_r_def d_def ts_def)
  have tb: "level_loop d [1..<d] [0] = Inr (level_table d)" by (rule level_loop_ok [OF d])
  have r: "rehash P s hs = rehash_loop P (level_table d) [ts..<2 * ts - 2] hs"
    using tb len by (simp add: rehash_def d_def ts_def)
  have "\<exists>hs'. rehash_loop P (level_table d) [ts..<2 * ts - 2] hs = Inr hs' \<and>
           (\<forall>j. ts \<le> j \<and> j < 2 * ts - 2 \<longrightarrow> node_ok P ts hs' j)"
  proof (cases "d = 1")
    case True
    then show ?thesis by (auto simp: ts)
  next
    case False
    then have d2: "2 \<le> d" using d by simp
    have "2 ^ 1 \<le> (2::nat) ^ d" using d(1) by (intro power_increasing) simp_all
    then have "(2::nat) ^ d \<le> 2 * 2 ^ d - 2" by simp
    then show ?thesis
      unfolding ts using len by (intro rehash_loop_ok [OF d2 d(2)]) (auto simp: ts_def [symmetric] ts)
  qed
  then obtain hs' where hs': "rehash_loop P (level_table d) [ts..<2 * ts - 2] hs = Inr hs'"
      "\<forall>j. ts \<le> j \<and> j < 2 * ts - 2 \<longrightarrow> node_ok P ts hs' j"
    by blast
  have fr: "length hs' = length hs" "\<forall>k. k \<notin> set [ts..<2 * ts - 2] \<longrightarrow> hs' ! k = hs ! k"
    using rehash_loop_frame [OF hs'(1)] by simp_all
  have "take ts hs' = take ts hs"
    by (rule nth_equalityI) (use fr in simp_all)
  then show ?thesis using r hs' fr(1) by (simp add: ts_def)
qed

lemma rehash_frame:
  assumes "rehash P s hs = Inr hs'"
  shows "length hs' = length hs \<and> take (total_size_r s) hs' = take (total_size_r s) hs"
proof -
  obtain tbl where "rehash_loop P tbl [total_size_r s..<length hs] hs = Inr hs'"
    using assms by (auto simp: rehash_def split: sum.splits)
  from rehash_loop_frame [OF this]
  have fr: "length hs' = length hs" "\<forall>k. k \<notin> set [total_size_r s..<length hs] \<longrightarrow> hs' ! k = hs ! k"
    by simp_all
  have "take (total_size_r s) hs' = take (total_size_r s) hs"
    by (rule nth_equalityI) (use fr in simp_all)
  then show ?thesis using fr(1) by simp
qed

text \<open>
  What \<^verbatim>\<open>get_hash_path\<close> of the full-rehash implementation writes: \<^verbatim>\<open>hashes_\<close> is replaced
  by the result of \<^verbatim>\<open>rehash\<close> and \<^verbatim>\<open>root_\<close> by the compression of its last two entries.
\<close>

lemma get_hash_path_rehash_state:
  assumes "get_hash_path_rehash P s idx = Inr (p, s')"
  shows "\<exists>hs. rehash P s (hashes_r s) = Inr hs \<and>
           s' = s\<lparr>hashes_r := hs,
                  root_r := compress_native P (hs ! (length hs - 2)) (hs ! (length hs - 1))\<rparr>"
  using assms
  by (auto simp: get_hash_path_rehash_def calculate_root_rehash_def Let_def
           split: sum.splits if_splits)

lemma get_hash_path_rehash_frame:
  assumes "get_hash_path_rehash P s idx = Inr (p, s')"
  shows "leaves_r s' = leaves_r s \<and> depth_r s' = depth_r s \<and>
         total_size_r s' = total_size_r s \<and>
         length (hashes_r s') = length (hashes_r s) \<and>
         take (total_size_r s) (hashes_r s') = take (total_size_r s) (hashes_r s)"
proof -
  obtain hs where hs: "rehash P s (hashes_r s) = Inr hs"
      "s' = s\<lparr>hashes_r := hs,
              root_r := compress_native P (hs ! (length hs - 2)) (hs ! (length hs - 1))\<rparr>"
    using get_hash_path_rehash_state [OF assms] by blast
  show ?thesis using rehash_frame [OF hs(1)] by (simp add: hs(2))
qed

lemma rehash_loop_id:
  assumes d: "2 \<le> d" "d \<le> 30"
    and i: "2 ^ d \<le> i" "i \<le> 2 * 2 ^ d - 2"
    and len: "length hs = 2 * 2 ^ d - 2"
    and ok: "\<forall>j. 2 ^ d \<le> j \<and> j < 2 * 2 ^ d - 2 \<longrightarrow> node_ok P (2 ^ d) hs j"
  shows "rehash_loop P (level_table d) [i..<2 * 2 ^ d - 2] hs = Inr hs"
  using i
proof (induction "2 * 2 ^ d - 2 - i" arbitrary: i)
  case 0
  then have "i = 2 * 2 ^ d - 2" by simp
  then show ?case by simp
next
  case (Suc n)
  then have lt: "i < 2 * 2 ^ d - 2" by simp
  have "node_ok P (2 ^ d) hs i" using ok Suc.prems(1) lt by simp
  then have "hs[i := compress_pair P (hs ! (2 * (i - 2 ^ d))) (hs ! (2 * (i - 2 ^ d) + 1))] = hs"
    using list_update_id [of hs i] by (simp add: node_ok_def)
  then have s1: "rehash_step P (level_table d) i hs = Inr hs"
    using rehash_step_eq [OF d Suc.prems(1) lt len, of P] by simp
  have "rehash_loop P (level_table d) [Suc i..<2 * 2 ^ d - 2] hs = Inr hs"
    by (rule Suc.hyps(1)) (use Suc lt in simp_all)
  then show ?case using lt s1 by (simp add: upt_conv_Cons)
qed

lemma rehash_id:
  assumes sh: "shape_r s" and h: "hashed_r P s"
  shows "rehash P s (hashes_r s) = Inr (hashes_r s)"
proof -
  define d where "d = depth_r s"
  define ts where "ts = total_size_r s"
  define hs where "hs = hashes_r s"
  have d: "1 \<le> d" "d \<le> 30" and ts: "ts = 2 ^ d" and len: "length hs = 2 * ts - 2"
    using sh by (simp_all add: shape_r_def d_def ts_def hs_def)
  have ok: "\<forall>j. ts \<le> j \<and> j < 2 * ts - 2 \<longrightarrow> node_ok P ts hs j"
    using h by (simp add: hashed_r_def ts_def hs_def)
  have tb: "level_loop d [1..<d] [0] = Inr (level_table d)" by (rule level_loop_ok [OF d])
  have r: "rehash P s hs = rehash_loop P (level_table d) [ts..<2 * ts - 2] hs"
    using tb len by (simp add: rehash_def d_def ts_def)
  have "rehash_loop P (level_table d) [ts..<2 * ts - 2] hs = Inr hs"
  proof (cases "d = 1")
    case True
    then show ?thesis by (simp add: ts)
  next
    case False
    then have d2: "2 \<le> d" using d by simp
    have "2 ^ 1 \<le> (2::nat) ^ d" using d(1) by (intro power_increasing) simp_all
    then have "(2::nat) ^ d \<le> 2 * 2 ^ d - 2" by simp
    then show ?thesis
      unfolding ts using len ok by (intro rehash_loop_id [OF d2 d(2)]) (auto simp: ts)
  qed
  then show ?thesis using r by (simp add: hs_def)
qed

lemma get_hash_path_rehash_id:
  assumes sh: "shape_r s" and h: "hashed_r P s"
    and g: "get_hash_path_rehash P s idx = Inr (p, s')"
  shows "s' = s"
proof -
  obtain hs where hs: "rehash P s (hashes_r s) = Inr hs"
      "s' = s\<lparr>hashes_r := hs,
              root_r := compress_native P (hs ! (length hs - 2)) (hs ! (length hs - 1))\<rparr>"
    using get_hash_path_rehash_state [OF g] by blast
  have "hs = hashes_r s" using hs(1) rehash_id [OF sh h] by simp
  then show ?thesis using h by (simp add: hs(2) hashed_r_def)
qed

lemma tree_2_30_get_path:
  "get_hash_path tree_2_30 0 = Inr ([(214, 31), (522, 6)], tree_2_30)"
  by (simp add: eval_defs tree_defs cong: eval_congs)

lemma rtree_2_30_path_get_path:
  "get_hash_path_rehash test_primitives rtree_2_30_path 0
     = Inr ([(214, 31), (522, 6)], rtree_2_30_path)"
  by (simp add: eval_defs rehash_eval_defs cong: eval_congs)

lemma rtree_2_30_path_hashed:
  "shape_r rtree_2_30_path \<and> hashed_r test_primitives rtree_2_30_path"
proof -
  have "node_ok test_primitives 4 [214, 31, 1, 1, 522, 6] j" if "4 \<le> j" "j < 6" for j
  proof -
    have "j = 4 \<or> j = 5" using that by linarith
    then consider "j = 4" | "j = 5" by auto
    then show ?thesis
      by cases (simp_all add: node_ok_def test_primitives_def)
  qed
  then show ?thesis
    by (simp add: shape_r_def hashed_r_def rtree_2_30_path_def test_primitives_def)
qed

subsection \<open>Insertion of arbitrary values\<close>

lemma construct_Inr_depth:
  assumes "IndexedMerkleTree P d = Inr t"
  shows "1 \<le> d \<and> d \<le> 30"
proof -
  have r: "d \<ge> 1 \<and> d \<le> 32"
    using assms by (cases "d \<ge> 1 \<and> d \<le> 32") (simp_all add: IndexedMerkleTree_def)
  have "d \<noteq> 31" using assms construct_31 [of P] by auto
  moreover have "d \<noteq> 32"
    using assms construct_level_Inl [OF _ _ level_loop_32, of P] by auto
  ultimately show ?thesis using r by linarith
qed

lemma insert_loop_Found_step:
  assumes IH: "\<And>ls val cur idx r. lp ls val cur idx = Some r \<Longrightarrow>
           (\<forall>i a b ls1. r = Inr (Found i a b ls1) \<longrightarrow>
              i < length ls \<and> length ls1 = length ls \<and> (\<forall>k < length ls. k \<noteq> i \<longrightarrow> ls1 ! k = ls ! k))"
    and body: "(if length ls \<le> idx then Some (Inl OutOfBounds)
      else if to_uint64 (nextValue (ls ! idx)) = to_uint64 val then Some (Inr Duplicate)
      else if to_uint64 val < to_uint64 (nextValue (ls ! idx)) \<or> nextValue (ls ! idx) = 0
      then Some (Inr (Found idx (nextIndex (ls ! idx)) (nextValue (ls ! idx))
                        (ls[idx := (ls ! idx)\<lparr>nextValue := val, nextIndex := cur\<rparr>])))
      else lp ls val cur (to_size_t (nextIndex (ls ! idx)))) = Some r"
  shows "\<forall>i a b ls1. r = Inr (Found i a b ls1) \<longrightarrow>
           i < length ls \<and> length ls1 = length ls \<and> (\<forall>k < length ls. k \<noteq> i \<longrightarrow> ls1 ! k = ls ! k)"
proof (cases "length ls \<le> idx \<or> to_uint64 (nextValue (ls ! idx)) = to_uint64 val")
  case True
  then show ?thesis using body by (auto split: if_splits)
next
  case False
  show ?thesis
  proof (cases "to_uint64 val < to_uint64 (nextValue (ls ! idx)) \<or> nextValue (ls ! idx) = 0")
    case True
    then have "r = Inr (Found idx (nextIndex (ls ! idx)) (nextValue (ls ! idx))
                        (ls[idx := (ls ! idx)\<lparr>nextValue := val, nextIndex := cur\<rparr>]))"
      using body False by (simp split: if_splits)
    then show ?thesis using False by auto
  next
    case nf: False
    then have "lp ls val cur (to_size_t (nextIndex (ls ! idx))) = Some r"
      using body False by (simp split: if_splits)
    from IH [OF this] show ?thesis .
  qed
qed

lemma insert_loop_Found_all:
  assumes "insert_loop ls val cur idx = Some r"
  shows "\<forall>i a b ls1. r = Inr (Found i a b ls1) \<longrightarrow>
           i < length ls \<and> length ls1 = length ls \<and> (\<forall>k < length ls. k \<noteq> i \<longrightarrow> ls1 ! k = ls ! k)"
  by (rule insert_loop.raw_induct
        [where P = "\<lambda>ls val cur idx r. \<forall>i a b ls1. r = Inr (Found i a b ls1) \<longrightarrow>
             i < length ls \<and> length ls1 = length ls \<and>
             (\<forall>k < length ls. k \<noteq> i \<longrightarrow> ls1 ! k = ls ! k)", OF _ assms])
    (rule insert_loop_Found_step)

lemma insert_loop_Found:
  assumes "insert_loop ls val cur idx = Some (Inr (Found i a b ls1))"
  shows "i < length ls \<and> length ls1 = length ls \<and> (\<forall>k < length ls. k \<noteq> i \<longrightarrow> ls1 ! k = ls ! k)"
  using insert_loop_Found_all [OF assms] by blast

text \<open>
  \<^verbatim>\<open>update_element\<close> keeps the sizes and the hashes in order whatever the value is: only the
  linked list depends on the value.
\<close>

lemma update_element_hashed:
  assumes sh: "shape t" and h: "hashed P t" and le: "length (leaves t) \<le> total_size t"
    and u: "update_element P t val = Some (Inr (r, t'))"
  shows "r = 0 \<and> shape t' \<and> hashed P t' \<and> length (leaves t') \<le> total_size t' \<and>
         depth t' = depth t"
proof (cases "total_size t \<le> length (leaves t)")
  case True
  then have "update_element P t val = Some (Inr (0, t))" by (rule update_element_full)
  then show ?thesis using u sh h le by simp
next
  case False
  then have room: "length (leaves t) < total_size t" by simp
  define n where "n = length (leaves t)"
  obtain w where w: "insert_loop (leaves t) val n 0 = Some (Inr w)"
    using u False
    by (auto simp: update_element_def Let_def n_def split: option.splits sum.splits)
  show ?thesis
  proof (cases w)
    case Duplicate
    then have "update_element P t val = Some (Inr (0, t))"
      using w False by (simp add: update_element_def Let_def n_def)
    then show ?thesis using u sh h le by simp
  next
    case (Found idx ni nv ls1)
    have f: "idx < length (leaves t) \<and> length ls1 = length (leaves t) \<and>
             (\<forall>k < length (leaves t). k \<noteq> idx \<longrightarrow> ls1 ! k = leaves t ! k)"
      by (rule insert_loop_Found) (use w Found in simp)
    have ue: "update_element P t val = Some (insert_finish P t val n idx ni nv ls1)"
      using w Found False by (simp add: update_element_def Let_def n_def)
    have "\<exists>t'. insert_finish P t val (length (leaves t)) idx ni nv ls1 = Inr (0, t') \<and>
           shape t' \<and> hashed P t' \<and> depth t' = depth t \<and>
           leaves t' = ls1 @ [\<lparr>leaf_value = val, nextIndex = ni, nextValue = nv\<rparr>]"
      by (rule insert_finish_ok [OF sh h room]) (use f in simp_all)
    then obtain t2 where t2: "insert_finish P t val n idx ni nv ls1 = Inr (0, t2)"
        "shape t2" "hashed P t2" "depth t2 = depth t"
        "leaves t2 = ls1 @ [\<lparr>leaf_value = val, nextIndex = ni, nextValue = nv\<rparr>]"
      by (auto simp: n_def)
    have e: "r = 0" "t' = t2" using u ue t2(1) by simp_all
    have ts: "total_size t2 = total_size t" using sh t2(2,4) by (simp add: shape_def)
    have "length (leaves t2) \<le> total_size t2" using f room by (simp add: t2(5) ts)
    then show ?thesis using e t2 by simp
  qed
qed

lemma update_elements_hashed:
  assumes "shape t" "hashed P t" "length (leaves t) \<le> total_size t"
    "update_elements P t vs = Some (Inr t')"
  shows "shape t' \<and> hashed P t' \<and> length (leaves t') \<le> total_size t' \<and> depth t' = depth t"
  using assms
proof (induction vs arbitrary: t)
  case Nil
  then show ?case by simp
next
  case (Cons v vs)
  obtain r t1 where u: "update_element P t v = Some (Inr (r, t1))"
      and us: "update_elements P t1 vs = Some (Inr t')"
    using Cons.prems(4) by (auto split: option.splits sum.splits)
  have t1: "shape t1" "hashed P t1" "length (leaves t1) \<le> total_size t1" "depth t1 = depth t"
    using update_element_hashed [OF Cons.prems(1-3) u] by simp_all
  show ?case using Cons.IH [OF t1(1-3) us] t1(4) by simp
qed

lemma reachable_hashed:
  assumes c: "IndexedMerkleTree P d = Inr t0" and u: "update_elements P t0 vs = Some (Inr t)"
  shows "1 \<le> d \<and> d \<le> 30 \<and> shape t \<and> hashed P t \<and> length (leaves t) \<le> total_size t \<and>
         depth t = d"
proof -
  have d: "1 \<le> d" "d \<le> 30" using construct_Inr_depth [OF c] by simp_all
  obtain t1 where t1: "IndexedMerkleTree P d = Inr t1" "shape t1" "depth t1 = d" "hashed P t1"
      "leaves t1 = [zero_leaf]"
    using construct_ok [OF d] by blast
  have e: "t1 = t0" using c t1(1) by simp
  have "2 \<le> total_size t0" using shape_ts [of t0] t1(2) e by simp
  then have "length (leaves t0) \<le> total_size t0" using t1(5) e by simp
  from update_elements_hashed [OF _ _ this u] show ?thesis using t1 e d by simp
qed

subsection \<open>The two implementations side by side\<close>

text \<open>
  The two loops that look for the predecessor make the same decisions: the full-rehash
  implementation tests \<^verbatim>\<open>>=\<close> and then \<^verbatim>\<open>==\<close>, the dirty-tracking one \<^verbatim>\<open>==\<close> and then \<^verbatim>\<open>>\<close>.
\<close>

lemma insert_loop_to_rehash_step:
  assumes IH: "\<And>ls val cur idx r. lp ls val cur idx = Some r \<Longrightarrow>
                 insert_loop_rehash ls val cur idx = Some r"
    and body: "(if length ls \<le> idx then Some (Inl OutOfBounds)
      else if to_uint64 (nextValue (ls ! idx)) = to_uint64 val then Some (Inr Duplicate)
      else if to_uint64 val < to_uint64 (nextValue (ls ! idx)) \<or> nextValue (ls ! idx) = 0
      then Some (Inr (Found idx (nextIndex (ls ! idx)) (nextValue (ls ! idx))
                        (ls[idx := (ls ! idx)\<lparr>nextValue := val, nextIndex := cur\<rparr>])))
      else lp ls val cur (to_size_t (nextIndex (ls ! idx)))) = Some r"
  shows "insert_loop_rehash ls val cur idx = Some r"
proof (cases "length ls \<le> idx \<or> to_uint64 (nextValue (ls ! idx)) = to_uint64 val \<or>
              to_uint64 val < to_uint64 (nextValue (ls ! idx)) \<or> nextValue (ls ! idx) = 0")
  case True
  then show ?thesis
    using body by (subst insert_loop_rehash.simps) (auto split: if_splits)
next
  case False
  then have "lp ls val cur (to_size_t (nextIndex (ls ! idx))) = Some r"
    using body by (simp split: if_splits)
  from IH [OF this] show ?thesis
    using False by (subst insert_loop_rehash.simps) auto
qed

lemma insert_loop_to_rehash:
  assumes "insert_loop ls val cur idx = Some r"
  shows "insert_loop_rehash ls val cur idx = Some r"
  by (rule insert_loop.raw_induct
        [where P = "\<lambda>ls val cur idx r. insert_loop_rehash ls val cur idx = Some r", OF _ assms])
    (rule insert_loop_to_rehash_step)

lemma insert_loop_from_rehash_step:
  assumes IH: "\<And>ls val cur idx r. lp ls val cur idx = Some r \<Longrightarrow>
                 insert_loop ls val cur idx = Some r"
    and body: "(if length ls \<le> idx then Some (Inl OutOfBounds)
      else if to_uint64 val \<le> to_uint64 (nextValue (ls ! idx)) \<or> nextValue (ls ! idx) = 0
      then (if to_uint64 (nextValue (ls ! idx)) = to_uint64 val then Some (Inr Duplicate)
            else Some (Inr (Found idx (nextIndex (ls ! idx)) (nextValue (ls ! idx))
                              (ls[idx := (ls ! idx)\<lparr>nextValue := val, nextIndex := cur\<rparr>]))))
      else lp ls val cur (to_size_t (nextIndex (ls ! idx)))) = Some r"
  shows "insert_loop ls val cur idx = Some r"
proof (cases "length ls \<le> idx \<or> to_uint64 val \<le> to_uint64 (nextValue (ls ! idx)) \<or>
              nextValue (ls ! idx) = 0")
  case True
  then show ?thesis
    using body by (subst insert_loop.simps) (auto split: if_splits)
next
  case False
  then have "lp ls val cur (to_size_t (nextIndex (ls ! idx))) = Some r"
    using body by (simp split: if_splits)
  from IH [OF this] show ?thesis
    using False by (subst insert_loop.simps) auto
qed

lemma insert_loop_from_rehash:
  assumes "insert_loop_rehash ls val cur idx = Some r"
  shows "insert_loop ls val cur idx = Some r"
  by (rule insert_loop_rehash.raw_induct
        [where P = "\<lambda>ls val cur idx r. insert_loop ls val cur idx = Some r", OF _ assms])
    (rule insert_loop_from_rehash_step)

lemma insert_loop_rehash_eq:
  "insert_loop_rehash ls val cur idx = insert_loop ls val cur idx"
proof (cases "insert_loop ls val cur idx")
  case None
  show ?thesis
  proof (cases "insert_loop_rehash ls val cur idx")
    case (Some r)
    then show ?thesis using insert_loop_from_rehash [OF Some] by simp
  qed (simp add: None)
next
  case (Some r)
  then show ?thesis using insert_loop_to_rehash [OF Some] by simp
qed

text \<open>
  The leaf level after the two writes of \<^verbatim>\<open>update_element\<close>: the hash of the new leaf at
  the first free slot, the hash of the rewritten predecessor at its index.
\<close>

lemma leaf_level_update:
  assumes tk: "take ts hs = map h (ls @ replicate (ts - length ls) z)"
    and n: "length ls < ts" "ts \<le> length hs"
    and idx: "idx < length ls"
    and l1: "length ls1 = length ls" "\<forall>k < length ls. k \<noteq> idx \<longrightarrow> ls1 ! k = ls ! k"
  shows "take ts (hs[length ls := h ((ls1 @ [new]) ! length ls),
                     idx := h ((ls1 @ [new]) ! idx)])
           = map h ((ls1 @ [new]) @ replicate (ts - Suc (length ls)) z)"
proof (rule nth_equalityI)
  show "length (take ts (hs[length ls := h ((ls1 @ [new]) ! length ls),
                     idx := h ((ls1 @ [new]) ! idx)]))
          = length (map h ((ls1 @ [new]) @ replicate (ts - Suc (length ls)) z))"
    using n l1(1) by simp
next
  fix k
  assume "k < length (take ts (hs[length ls := h ((ls1 @ [new]) ! length ls),
                     idx := h ((ls1 @ [new]) ! idx)]))"
  then have k: "k < ts" by simp
  define n where "n = length ls"
  define ls' where "ls' = ls1 @ [new]"
  have len': "length ls' = Suc n" using l1(1) by (simp add: ls'_def n_def)
  have nts: "n < ts" "idx < n" using assms by (simp_all add: n_def)
  have kl: "k < length hs" using k assms by simp
  have old: "hs ! k = h ((ls @ replicate (ts - n) z) ! k)"
  proof -
    have "take ts hs ! k = map h (ls @ replicate (ts - n) z) ! k" using tk by (simp add: n_def)
    moreover have "k < length (ls @ replicate (ts - n) z)" using k nts by (simp add: n_def)
    then have "map h (ls @ replicate (ts - n) z) ! k = h ((ls @ replicate (ts - n) z) ! k)"
      by (rule nth_map)
    ultimately show ?thesis using k by simp
  qed
  consider "k = idx" | "k = n" | "k < n" "k \<noteq> idx" | "n < k" by linarith
  then have "hs[n := h (ls' ! n), idx := h (ls' ! idx)] ! k
               = h ((ls' @ replicate (ts - Suc n) z) ! k)"
  proof cases
    case 1
    then show ?thesis using nts kl len' by (simp add: nth_append)
  next
    case 2
    then show ?thesis using nts kl len' by (simp add: nth_append)
  next
    case 3
    then have "hs[n := h (ls' ! n), idx := h (ls' ! idx)] ! k = hs ! k" by simp
    moreover have "ls' ! k = ls ! k"
      using 3 l1 by (simp add: ls'_def nth_append n_def)
    ultimately show ?thesis using old 3 len' by (simp add: nth_append n_def)
  next
    case 4
    then have "hs[n := h (ls' ! n), idx := h (ls' ! idx)] ! k = hs ! k" using nts by simp
    then show ?thesis using old 4 len' k by (simp add: nth_append n_def)
  qed
  moreover have "k < length (ls' @ replicate (ts - Suc n) z)" using k nts len' by simp
  then have "map h (ls' @ replicate (ts - Suc n) z) ! k = h ((ls' @ replicate (ts - Suc n) z) ! k)"
    by (rule nth_map)
  ultimately have "hs[n := h (ls' ! n), idx := h (ls' ! idx)] ! k
                     = map h (ls' @ replicate (ts - Suc n) z) ! k"
    by simp
  then show "take ts (hs[length ls := h ((ls1 @ [new]) ! length ls),
                     idx := h ((ls1 @ [new]) ! idx)]) ! k
          = map h ((ls1 @ [new]) @ replicate (ts - Suc (length ls)) z) ! k"
    unfolding n_def ls'_def using k by (simp only: nth_take)
qed

text \<open>The leaf level determines the internal nodes.\<close>

lemma nodes_determined:
  assumes len: "length hs = 2 * ts - 2" "length hs' = 2 * ts - 2"
    and ok: "\<forall>j. ts \<le> j \<and> j < 2 * ts - 2 \<longrightarrow> node_ok P ts hs j"
      "\<forall>j. ts \<le> j \<and> j < 2 * ts - 2 \<longrightarrow> node_ok P ts hs' j"
    and tk: "take ts hs = take ts hs'"
  shows "hs = hs'"
proof (rule nth_equalityI)
  show "length hs = length hs'" using len by simp
next
  fix j assume "j < length hs"
  then have "j < 2 * ts - 2" using len by simp
  then show "hs ! j = hs' ! j"
  proof (induction j rule: less_induct)
    case (less j)
    show ?case
    proof (cases "j < ts")
      case True
      have "take ts hs ! j = take ts hs' ! j" using tk by simp
      then show ?thesis using True by simp
    next
      case False
      then have c: "2 * (j - ts) + 1 < j" using less.prems by linarith
      then have "hs ! (2 * (j - ts)) = hs' ! (2 * (j - ts))"
          "hs ! (2 * (j - ts) + 1) = hs' ! (2 * (j - ts) + 1)"
        using less.IH less.prems by simp_all
      then show ?thesis using ok False less.prems by (simp add: node_ok_def)
    qed
  qed
qed

lemma shape_r_ts: "shape_r s \<Longrightarrow> 2 \<le> total_size_r s \<and> total_size_r s \<le> 1073741824"
proof -
  assume sh: "shape_r s"
  then have d: "1 \<le> depth_r s" "depth_r s \<le> 30" and ts: "total_size_r s = 2 ^ depth_r s"
    by (simp_all add: shape_r_def)
  have "2 ^ 1 \<le> (2::nat) ^ depth_r s" using d(1) by (intro power_increasing) simp_all
  then show ?thesis using pow2_le_30 [OF d(2)] ts by simp
qed

lemma construct_rehash_ok:
  assumes d: "1 \<le> d" "d \<le> 30"
  shows "\<exists>s. IndexedMerkleTree_rehash P d = Inr s \<and> shape_r s \<and> hashed_r P s \<and>
           leaf_level_r P s \<and> depth_r s = d \<and> leaves_r s = [zero_leaf]"
proof -
  define ts :: nat where "ts = 2 ^ d"
  define z where "z = leaf_hash P zero_leaf"
  define s0 where "s0 = \<lparr>depth_r = d, total_size_r = ts, root_r = 0, leaves_r = [zero_leaf],
                    hashes_r = replicate (ts * 2 - 2) 0\<rparr>"
  have sh0: "shape_r s0" using d by (simp add: shape_r_def s0_def ts_def)
  have ts2: "2 \<le> ts" using shape_r_ts [OF sh0] by (simp add: s0_def)
  have "ts \<le> length (hashes_r s0)" using ts2 by (simp add: s0_def)
  from fill_loop_ok [OF this, of z 0]
  obtain hs1 where hs1: "fill_loop z [0..<ts] (hashes_r s0) = Inr hs1"
      "length hs1 = length (hashes_r s0)"
      "\<forall>j < length (hashes_r s0). hs1 ! j = (if 0 \<le> j \<and> j < ts then z else hashes_r s0 ! j)"
    by blast
  have l1: "length hs1 = 2 * total_size_r s0 - 2" using hs1(2) by (simp add: s0_def)
  from rehash_ok [OF sh0 l1, of P]
  obtain hs2 where hs2: "rehash P s0 hs1 = Inr hs2" "length hs2 = length hs1"
      "take ts hs2 = take ts hs1"
      "\<forall>j. ts \<le> j \<and> j < 2 * ts - 2 \<longrightarrow> node_ok P ts hs2 j"
    by (auto simp: s0_def)
  have ih: "init_hashes_rehash P s0 (hashes_r s0) = Inr hs2"
    using hs1(1) hs2(1)
    by (simp add: init_hashes_rehash_def rehash_def Let_def z_def s0_def split: sum.splits)
  define s1 where "s1 = s0\<lparr>hashes_r := hs2,
      root_r := compress_native P (hs2 ! (length hs2 - 2)) (hs2 ! (length hs2 - 1))\<rparr>"
  have l2: "length hs2 = 2 * ts - 2" using hs2(2) l1 by (simp add: s0_def)
  have c: "IndexedMerkleTree_rehash P d = Inr s1"
    unfolding IndexedMerkleTree_rehash_def Let_def ts_def [symmetric] s0_def [symmetric]
    using d ih l2 ts2 by (simp add: calculate_root_rehash_def s1_def Let_def)
  have tk: "take ts hs2 = replicate ts z"
  proof (rule nth_equalityI)
    show "length (take ts hs2) = length (replicate ts z)" using l2 ts2 by simp
  next
    fix k assume "k < length (take ts hs2)"
    then have k: "k < ts" by simp
    then have "take ts hs1 ! k = z" using hs1(3) ts2 by (simp add: s0_def)
    then show "take ts hs2 ! k = replicate ts z ! k" using k hs2(3) by simp
  qed
  have "replicate ts z = z # replicate (ts - 1) z"
    using ts2 by (cases ts) simp_all
  then have ll: "leaf_level_r P s1"
    using tk ts2 by (simp add: leaf_level_r_def leaf_hashes_r_def s1_def s0_def z_def)
  have "shape_r s1" using sh0 l2 by (simp add: shape_r_def s1_def s0_def)
  moreover have "hashed_r P s1" using hs2(4) by (simp add: hashed_r_def s1_def s0_def)
  moreover have "depth_r s1 = d" "leaves_r s1 = [zero_leaf]" by (simp_all add: s1_def s0_def)
  ultimately show ?thesis using c ll by blast
qed

lemma update_element_rehash_full:
  assumes "total_size_r s \<le> length (leaves_r s)"
  shows "update_element_rehash P s val = Some (Inr (0, s))"
  using assms by (simp add: update_element_rehash_def Let_def)

lemma update_element_rehash_ok:
  assumes sh: "shape_r s" and ll: "leaf_level_r P s"
    and u: "update_element_rehash P s val = Some (Inr (r, s'))"
  shows "r = 0 \<and> shape_r s' \<and> leaf_level_r P s' \<and> depth_r s' = depth_r s \<and>
         total_size_r s' = total_size_r s \<and> root_r s' = root_r s"
proof (cases "total_size_r s \<le> length (leaves_r s)")
  case True
  then show ?thesis using u sh ll update_element_rehash_full [OF True, of P val] by simp
next
  case False
  define n where "n = length (leaves_r s)"
  define ts where "ts = total_size_r s"
  have room: "n < ts" using False by (simp add: n_def ts_def)
  have ts2: "2 \<le> ts" using shape_r_ts [OF sh] by (simp add: ts_def)
  have lenh: "length (hashes_r s) = 2 * ts - 2" using sh by (simp add: shape_r_def ts_def)
  obtain w where w: "insert_loop (leaves_r s) val n 0 = Some (Inr w)"
    using u False
    by (auto simp: update_element_rehash_def insert_loop_rehash_eq Let_def n_def
             split: option.splits sum.splits)
  show ?thesis
  proof (cases w)
    case Duplicate
    then have "update_element_rehash P s val = Some (Inr (0, s))"
      using w False by (simp add: update_element_rehash_def insert_loop_rehash_eq Let_def n_def)
    then show ?thesis using u sh ll by simp
  next
    case (Found idx ni nv ls1)
    have f: "idx < n" "length ls1 = n"
        "\<forall>k < length (leaves_r s). k \<noteq> idx \<longrightarrow> ls1 ! k = leaves_r s ! k"
      using insert_loop_Found [of "leaves_r s" val n 0 idx ni nv ls1] w Found
      by (simp_all add: n_def)
    define new where "new = \<lparr>leaf_value = val, nextIndex = ni, nextValue = nv\<rparr>"
    define s2 where "s2 = s\<lparr>leaves_r := ls1 @ [new],
        hashes_r := (hashes_r s)[n := leaf_hash P ((ls1 @ [new]) ! n),
                                 idx := leaf_hash P ((ls1 @ [new]) ! idx)]\<rparr>"
    have g: "n < 2 * ts - 2" "idx < 2 * ts - 2" using room f(1) ts2 by linarith+
    have ue: "update_element_rehash P s val = Some (Inr (0, s2))"
      using w Found False f(1,2) g lenh
      by (simp add: update_element_rehash_def insert_loop_rehash_eq Let_def n_def [symmetric]
            new_def s2_def)
    have e: "r = 0" "s' = s2" using u ue by simp_all
    have tk: "take ts (hashes_r s) = map (leaf_hash P) (leaves_r s @ replicate (ts - n) zero_leaf)"
      using ll by (simp add: leaf_level_r_def leaf_hashes_r_def ts_def n_def)
    have "take ts ((hashes_r s)[length (leaves_r s) := leaf_hash P ((ls1 @ [new]) ! length (leaves_r s)),
                     idx := leaf_hash P ((ls1 @ [new]) ! idx)])
           = map (leaf_hash P) ((ls1 @ [new]) @ replicate (ts - Suc (length (leaves_r s))) zero_leaf)"
      by (rule leaf_level_update)
        (use tk room f lenh ts2 in \<open>simp_all add: n_def\<close>)
    then have "leaf_level_r P s2"
      using room f(2) by (simp add: leaf_level_r_def leaf_hashes_r_def s2_def ts_def n_def)
    moreover have "shape_r s2" using sh by (simp add: shape_r_def s2_def)
    ultimately show ?thesis using e by (simp add: s2_def)
  qed
qed

lemma sim_update:
  assumes si: "sim t s" and sh: "shape t" and h: "hashed P t" and shr: "shape_r s"
    and u: "update_element P t val = Some (Inr (r, t'))"
  shows "\<exists>s'. update_element_rehash P s val = Some (Inr (0, s')) \<and> sim t' s'"
proof (cases "total_size t \<le> length (leaves t)")
  case True
  then have "update_element P t val = Some (Inr (0, t))" by (rule update_element_full)
  moreover have "update_element_rehash P s val = Some (Inr (0, s))"
    by (rule update_element_rehash_full) (use True si in \<open>simp add: sim_def\<close>)
  ultimately show ?thesis using u si by simp
next
  case False
  then have room: "length (leaves t) < total_size t" by simp
  define n where "n = length (leaves t)"
  define ts where "ts = total_size t"
  have e: "leaves_r s = leaves t" "total_size_r s = ts" "depth_r s = depth t"
    using si by (simp_all add: sim_def ts_def)
  have ts2: "2 \<le> ts" using shape_ts [OF sh] by (simp add: ts_def)
  have lenh: "length (hashes_r s) = 2 * ts - 2" using shr e by (simp add: shape_r_def)
  obtain w where w: "insert_loop (leaves t) val n 0 = Some (Inr w)"
    using u False
    by (auto simp: update_element_def Let_def n_def split: option.splits sum.splits)
  show ?thesis
  proof (cases w)
    case Duplicate
    then have "update_element P t val = Some (Inr (0, t))"
      using w False by (simp add: update_element_def Let_def n_def)
    moreover have "update_element_rehash P s val = Some (Inr (0, s))"
      using w Duplicate False e
      by (simp add: update_element_rehash_def insert_loop_rehash_eq Let_def n_def ts_def)
    ultimately show ?thesis using u si by simp
  next
    case (Found idx ni nv ls1)
    have f: "idx < length (leaves t) \<and> length ls1 = length (leaves t) \<and>
             (\<forall>k < length (leaves t). k \<noteq> idx \<longrightarrow> ls1 ! k = leaves t ! k)"
      by (rule insert_loop_Found) (use w Found in simp)
    have ue: "update_element P t val = Some (insert_finish P t val n idx ni nv ls1)"
      using w Found False by (simp add: update_element_def Let_def n_def)
    have "\<exists>t'. insert_finish P t val (length (leaves t)) idx ni nv ls1 = Inr (0, t') \<and>
           shape t' \<and> hashed P t' \<and> depth t' = depth t \<and>
           leaves t' = ls1 @ [\<lparr>leaf_value = val, nextIndex = ni, nextValue = nv\<rparr>]"
      by (rule insert_finish_ok [OF sh h room]) (use f in simp_all)
    then obtain t2 where t2: "insert_finish P t val n idx ni nv ls1 = Inr (0, t2)"
        "shape t2" "depth t2 = depth t"
        "leaves t2 = ls1 @ [\<lparr>leaf_value = val, nextIndex = ni, nextValue = nv\<rparr>]"
      by (auto simp: n_def)
    have t': "t' = t2" using u ue t2(1) by simp
    have tst: "total_size t2 = ts" using sh t2(2,3) by (simp add: shape_def ts_def)
    define new where "new = \<lparr>leaf_value = val, nextIndex = ni, nextValue = nv\<rparr>"
    define s2 where "s2 = s\<lparr>leaves_r := ls1 @ [new],
        hashes_r := (hashes_r s)[n := leaf_hash P ((ls1 @ [new]) ! n),
                                 idx := leaf_hash P ((ls1 @ [new]) ! idx)]\<rparr>"
    have nts: "n < ts" "idx < n" using room f by (simp_all add: n_def ts_def)
    have g: "n < 2 * ts - 2" "idx < 2 * ts - 2" "n < ts"
      using nts ts2 by linarith+
    have "update_element_rehash P s val = Some (Inr (0, s2))"
      using w Found f g lenh e
      by (simp add: update_element_rehash_def insert_loop_rehash_eq Let_def n_def [symmetric]
            new_def s2_def)
    moreover have "sim t' s2"
      using e t2(3,4) tst by (simp add: sim_def s2_def t' new_def)
    ultimately show ?thesis by blast
  qed
qed

lemma sim_updates:
  assumes "sim t s" "shape t" "hashed P t" "length (leaves t) \<le> total_size t"
    "shape_r s" "leaf_level_r P s"
    "update_elements P t vs = Some (Inr t')"
  shows "\<exists>s'. update_elements_rehash P s vs = Some (Inr s') \<and> sim t' s' \<and> shape_r s' \<and>
           leaf_level_r P s' \<and> root_r s' = root_r s"
  using assms
proof (induction vs arbitrary: t s)
  case Nil
  then show ?case by simp
next
  case (Cons v vs)
  obtain r t1 where u: "update_element P t v = Some (Inr (r, t1))"
      and us: "update_elements P t1 vs = Some (Inr t')"
    using Cons.prems(7) by (auto split: option.splits sum.splits)
  have t1: "shape t1" "hashed P t1" "length (leaves t1) \<le> total_size t1"
    using update_element_hashed [OF Cons.prems(2-4) u] by simp_all
  obtain s1 where s1: "update_element_rehash P s v = Some (Inr (0, s1))" "sim t1 s1"
    using sim_update [OF Cons.prems(1-3,5) u] by blast
  have r1: "shape_r s1" "leaf_level_r P s1" "root_r s1 = root_r s"
    using update_element_rehash_ok [OF Cons.prems(5,6) s1(1)] by simp_all
  obtain s' where s': "update_elements_rehash P s1 vs = Some (Inr s')" "sim t' s'" "shape_r s'"
      "leaf_level_r P s'" "root_r s' = root_r s1"
    using Cons.IH [OF s1(2) t1 r1(1,2) us] by blast
  show ?case using s1(1) s' r1(3) by simp
qed

text \<open>
  On trees with the same leaf pre-images, \<^verbatim>\<open>get_hash_path\<close> of the full-rehash implementation
  recomputes exactly the nodes and the root that the dirty-tracking implementation keeps,
  and then reads the same path.
\<close>

lemma rehash_sim:
  assumes sh: "shape t" and h: "hashed P t"
    and si: "sim t s" and shr: "shape_r s" and ll: "leaf_level_r P s"
  shows "rehash P s (hashes_r s) = Inr (hashes t)"
proof -
  define ts where "ts = total_size t"
  have e: "leaves_r s = leaves t" "total_size_r s = ts" "depth_r s = depth t"
    using si by (simp_all add: sim_def ts_def)
  have len: "length (hashes_r s) = 2 * total_size_r s - 2" using shr by (simp add: shape_r_def)
  from rehash_ok [OF shr len, of P]
  obtain hs' where hs': "rehash P s (hashes_r s) = Inr hs'" "length hs' = length (hashes_r s)"
      "take ts hs' = take ts (hashes_r s)"
      "\<forall>j. ts \<le> j \<and> j < 2 * ts - 2 \<longrightarrow> node_ok P ts hs' j"
    by (auto simp: e)
  have "take ts (hashes_r s) = leaf_hashes P t"
    using ll e by (simp add: leaf_level_r_def leaf_hashes_r_def leaf_hashes_def ts_def)
  then have tk: "take ts hs' = take ts (hashes t)"
    using hs'(3) h by (simp add: hashed_def ts_def)
  have "hs' = hashes t"
    by (rule nodes_determined [OF _ _ hs'(4) _ tk])
      (use hs'(2) len e sh h in \<open>simp_all add: shape_def hashed_def ts_def\<close>)
  then show ?thesis using hs'(1) by simp
qed

lemma get_hash_path_rehash_sim:
  assumes sh: "shape t" and h: "hashed P t"
    and si: "sim t s" and shr: "shape_r s" and ll: "leaf_level_r P s"
  shows "get_hash_path_rehash P s idx =
           (case get_hash_path t idx of
              Inl e \<Rightarrow> Inl e
            | Inr r \<Rightarrow> Inr (fst r, s\<lparr>hashes_r := hashes t, root_r := root t\<rparr>))"
proof -
  define ts where "ts = total_size t"
  define d where "d = depth t"
  have e: "leaves_r s = leaves t" "total_size_r s = ts" "depth_r s = d"
    using si by (simp_all add: sim_def ts_def d_def)
  have d: "1 \<le> d" "d \<le> 30" and tb: "level_str_idxs t = level_table d"
    and len: "length (hashes t) = 2 * ts - 2"
    using sh by (simp_all add: shape_def d_def ts_def)
  have ts2: "2 \<le> ts" using shape_ts [OF sh] by (simp add: ts_def)
  have rh: "rehash P s (hashes_r s) = Inr (hashes t)" by (rule rehash_sim [OF assms])
  have rt: "compress_native P (hashes t ! (length (hashes t) - 2))
              (hashes t ! (length (hashes t) - 1)) = root t"
    using h by (simp add: hashed_def)
  have l2: "\<not> length (hashes t) < 2" using len ts2 by simp
  have cr: "calculate_root_rehash P (s\<lparr>hashes_r := hashes t\<rparr>) (hashes t)
              = Inr (s\<lparr>hashes_r := hashes t, root_r := root t\<rparr>)"
    unfolding calculate_root_rehash_def Let_def using l2 rt by simp
  have tl: "level_loop d [1..<d] [0] = Inr (level_table d)" by (rule level_loop_ok [OF d])
  have p: "\<not> length (replicate d ((0::nat), (0::nat))) \<le> 0" using d(1) by simp
  show ?thesis
    unfolding get_hash_path_rehash_def get_hash_path_def Let_def rh sum.case cr
    using tl p by (simp add: e d_def [symmetric] tb split: sum.splits)
qed

lemma construct_sim:
  assumes c: "IndexedMerkleTree P d = Inr t0"
  shows "\<exists>s0. IndexedMerkleTree_rehash P d = Inr s0 \<and> sim t0 s0 \<and> shape_r s0 \<and>
           leaf_level_r P s0 \<and> hashes_r s0 = hashes t0 \<and> root_r s0 = root t0"
proof -
  have d: "1 \<le> d" "d \<le> 30" using construct_Inr_depth [OF c] by simp_all
  obtain t1 where t1: "IndexedMerkleTree P d = Inr t1" "shape t1" "depth t1 = d" "hashed P t1"
      "leaves t1 = [zero_leaf]"
    using construct_ok [OF d] by blast
  have e: "t1 = t0" using c t1(1) by simp
  obtain s0 where s0: "IndexedMerkleTree_rehash P d = Inr s0" "shape_r s0" "hashed_r P s0"
      "leaf_level_r P s0" "depth_r s0 = d" "leaves_r s0 = [zero_leaf]"
    using construct_rehash_ok [OF d] by blast
  have si: "sim t0 s0" using t1 s0 e by (simp add: sim_def shape_def shape_r_def)
  have "rehash P s0 (hashes_r s0) = Inr (hashes t0)"
    by (rule rehash_sim [OF _ _ si s0(2,4)]) (use t1 e in simp_all)
  then have hs: "hashes_r s0 = hashes t0" using rehash_id [OF s0(2,3)] by simp
  have "root_r s0 = root t0"
    using s0(3) t1(4) hs e by (simp add: hashed_r_def hashed_def)
  then show ?thesis using s0 si hs by blast
qed

lemma rehash_simulation:
  assumes c: "IndexedMerkleTree P d = Inr t0" and u: "update_elements P t0 vs = Some (Inr t)"
  shows "\<exists>s0 s. IndexedMerkleTree_rehash P d = Inr s0 \<and>
           update_elements_rehash P s0 vs = Some (Inr s) \<and>
           sim t s \<and> shape_r s \<and> leaf_level_r P s \<and> root_r s = root t0"
proof -
  obtain s0 where s0: "IndexedMerkleTree_rehash P d = Inr s0" "sim t0 s0" "shape_r s0"
      "leaf_level_r P s0" "root_r s0 = root t0"
    using construct_sim [OF c] by blast
  have t0: "shape t0" "hashed P t0" "length (leaves t0) \<le> total_size t0"
    using reachable_hashed [OF c, of "[]"] by simp_all
  obtain s where "update_elements_rehash P s0 vs = Some (Inr s)" "sim t s" "shape_r s"
      "leaf_level_r P s" "root_r s = root_r s0"
    using sim_updates [OF s0(2) t0 s0(3,4) u] by blast
  then show ?thesis using s0 by auto
qed

lemma linked_values_sim: "sim t s \<Longrightarrow> linked_values_r s = linked_values t"
  by (simp add: sim_def linked_values_r_def linked_values_def)

lemma update_element_rehash_noop:
  assumes si: "sim t s" and sh: "shape t" and h: "hashed P t" and shr: "shape_r s"
    and u: "update_element P t val = Some (Inr (0, t))"
  shows "update_element_rehash P s val = Some (Inr (0, s))"
proof -
  obtain s' where s': "update_element_rehash P s val = Some (Inr (0, s'))" "sim t s'"
    using sim_update [OF si sh h shr u] by blast
  have l: "leaves_r s' = leaves_r s" using si s'(2) by (simp add: sim_def)
  show ?thesis
  proof (cases "total_size_r s \<le> length (leaves_r s)")
    case True
    then show ?thesis by (rule update_element_rehash_full)
  next
    case False
    define n where "n = length (leaves_r s)"
    obtain w where w: "insert_loop (leaves_r s) val n 0 = Some (Inr w)"
      using s'(1) False
      by (auto simp: update_element_rehash_def insert_loop_rehash_eq Let_def n_def
               split: option.splits sum.splits)
    show ?thesis
    proof (cases w)
      case Duplicate
      then show ?thesis
        using w False by (simp add: update_element_rehash_def insert_loop_rehash_eq Let_def n_def)
    next
      case (Found idx ni nv ls1)
      have f: "length ls1 = n"
        using insert_loop_Found [of "leaves_r s" val n 0 idx ni nv ls1] w Found
        by (simp add: n_def)
      have "length (leaves_r s') = Suc n"
        using s'(1) w Found False f
        by (auto simp: update_element_rehash_def insert_loop_rehash_eq Let_def n_def [symmetric]
                 split: if_splits)
      then show ?thesis using l by (simp add: n_def)
    qed
  qed
qed

subsection \<open>The constructor of the full-rehash implementation, depth 31 and 32\<close>

text \<open>The constructor of the full-rehash implementation fills its table with the same shift.\<close>

lemma rehash_step_31:
  assumes "length hs = 4294967294"
  shows "rehash_step P table_31 2147483648 hs = Inl OutOfBounds"
  using assms by (simp add: rehash_step_def locate_31 Let_def)

lemma rehash_loop_first_Inl:
  assumes "i < n" "rehash_step P lsis i hs = Inl e"
  shows "rehash_loop P lsis [i..<n] hs = Inl e"
  using assms by (simp add: upt_conv_Cons)

lemma init_hashes_rehash_level_Inl:
  assumes "total_size_r s \<le> length hs" "level_loop (depth_r s) [1..<depth_r s] [0] = Inl e"
  shows "init_hashes_rehash P s hs = Inl e"
proof -
  from fill_loop_ok [OF assms(1), of "leaf_hash P zero_leaf" 0]
  obtain hs1 where "fill_loop (leaf_hash P zero_leaf) [0..<total_size_r s] hs = Inr hs1"
    by auto
  then show ?thesis using assms(2) by (simp add: init_hashes_rehash_def)
qed

lemma init_hashes_rehash_31:
  assumes "depth_r s = 31" "total_size_r s = 2147483648" "length hs = 4294967294"
  shows "init_hashes_rehash P s hs = Inl OutOfBounds"
proof -
  have "total_size_r s \<le> length hs" using assms by simp
  from fill_loop_ok [OF this, of "leaf_hash P zero_leaf" 0]
  obtain hs1 where hs1: "fill_loop (leaf_hash P zero_leaf) [0..<total_size_r s] hs = Inr hs1"
      "length hs1 = length hs"
    by auto
  have "rehash_loop P table_31 [total_size_r s..<length hs1] hs1 = Inl OutOfBounds"
    by (rule rehash_loop_first_Inl)
      (use assms hs1(2) rehash_step_31 [of hs1 P] in simp_all)
  then show ?thesis
    using hs1(1) assms(1) level_loop_31 by (simp add: init_hashes_rehash_def)
qed

lemma construct_rehash_Inl:
  assumes "1 \<le> d" "d \<le> 32"
    "init_hashes_rehash P \<lparr>depth_r = d, total_size_r = 2 ^ d, root_r = 0, leaves_r = [zero_leaf],
       hashes_r = replicate (2 ^ d * 2 - 2) 0\<rparr> (replicate (2 ^ d * 2 - 2) 0) = Inl e"
  shows "IndexedMerkleTree_rehash P d = Inl e"
  using assms by (simp add: IndexedMerkleTree_rehash_def Let_def)

lemma construct_rehash_31: "IndexedMerkleTree_rehash P 31 = Inl OutOfBounds"
  by (rule construct_rehash_Inl) (simp_all add: init_hashes_rehash_31)

lemma construct_rehash_32: "IndexedMerkleTree_rehash P 32 = Inl UndefinedShift"
proof (rule construct_rehash_Inl)
  show "init_hashes_rehash P \<lparr>depth_r = 32, total_size_r = 2 ^ 32, root_r = 0,
       leaves_r = [zero_leaf], hashes_r = replicate (2 ^ 32 * 2 - 2) 0\<rparr>
       (replicate (2 ^ 32 * 2 - 2) 0) = Inl UndefinedShift"
  proof (rule init_hashes_rehash_level_Inl)
    show "level_loop (depth_r \<lparr>depth_r = 32, total_size_r = 2 ^ 32, root_r = 0,
                 leaves_r = [zero_leaf], hashes_r = replicate (2 ^ 32 * 2 - 2) 0\<rparr>)
            [1..<depth_r \<lparr>depth_r = 32, total_size_r = 2 ^ 32, root_r = 0,
                 leaves_r = [zero_leaf], hashes_r = replicate (2 ^ 32 * 2 - 2) 0\<rparr>] [0]
            = Inl UndefinedShift"
      unfolding imt_rehash.select_convs by (rule level_loop_32)
  qed simp
qed simp_all

subsection \<open>The linked list after arbitrary insertions\<close>

lemma links_bound: "links ls i xs \<Longrightarrow> i < length ls"
  by (induction ls i xs rule: links.induct) auto

lemma links_unchanged:
  assumes "links ls i zs" "idx < length ls" "leaf_value (ls ! idx) \<notin> set zs"
  shows "links (ls[idx := l] @ [nl]) i zs"
  using assms
proof (induction ls i zs rule: links.induct)
  case (1 ls i)
  then show ?case by simp
next
  case (2 ls i x)
  then have "i \<noteq> idx" by auto
  then show ?case using 2 by (simp add: nth_append)
next
  case (3 ls i x y ys)
  then have ne: "i \<noteq> idx" by auto
  have "links (ls[idx := l] @ [nl]) (nextIndex (ls ! i)) (y # ys)"
    by (rule 3(1)) (use 3 in auto)
  then show ?case using 3 ne by (simp add: nth_append)
qed

lemma low64_insort:
  assumes "sorted_wrt (\<lambda>a b. to_uint64 a < to_uint64 b) xs"
    "to_uint64 val \<notin> to_uint64 ` set xs"
  shows "sorted_wrt (\<lambda>a b. to_uint64 a < to_uint64 b) (insort_key to_uint64 val xs)"
  using assms
proof (induction xs)
  case Nil
  then show ?case by simp
next
  case (Cons y ys)
  show ?case
  proof (cases "to_uint64 val \<le> to_uint64 y")
    case True
    then have "to_uint64 val < to_uint64 y" using Cons.prems(2) by (simp add: le_less)
    then show ?thesis using Cons.prems(1) True by auto
  next
    case False
    then show ?thesis using Cons by (auto simp: set_insort_key)
  qed
qed

lemma to_uint64_0: "to_uint64 0 = 0"
  by (simp add: to_uint64_def)

lemma insert_loop_links_dup:
  assumes "links ls i (x # xs)" "sorted_wrt (\<lambda>a b. to_uint64 a < to_uint64 b) xs"
    "to_uint64 val \<in> to_uint64 ` set xs \<or> (to_uint64 val = 0 \<and> xs = [])"
    "length ls \<le> 2 ^ 64"
  shows "insert_loop ls val cur i = Some (Inr Duplicate)"
  using assms
proof (induction xs arbitrary: i x)
  case Nil
  then have i: "i < length ls" "nextValue (ls ! i) = 0" and v: "to_uint64 val = 0" by simp_all
  show ?case by (subst insert_loop.simps) (use i v in \<open>simp add: to_uint64_0\<close>)
next
  case (Cons y ys)
  then have i: "i < length ls" "nextValue (ls ! i) = y" "y \<noteq> 0"
      and rest: "links ls (nextIndex (ls ! i)) (y # ys)" by simp_all
  have sy: "sorted_wrt (\<lambda>a b. to_uint64 a < to_uint64 b) ys"
    and yl: "\<forall>z \<in> set ys. to_uint64 y < to_uint64 z" using Cons.prems(2) by simp_all
  show ?case
  proof (cases "to_uint64 y = to_uint64 val")
    case True
    show ?thesis by (subst insert_loop.simps) (use i True in simp)
  next
    case False
    then have vys: "to_uint64 val \<in> to_uint64 ` set ys" using Cons.prems(3) by auto
    then have yv: "to_uint64 y < to_uint64 val" using yl by auto
    define i' where "i' = nextIndex (ls ! i)"
    have i'b: "i' < length ls" using rest links_bound by (simp add: i'_def)
    have sz: "to_size_t i' = i'" using i'b Cons.prems(4) by (simp add: to_size_t_id)
    have "insert_loop ls val cur i = insert_loop ls val cur i'"
      by (subst insert_loop.simps) (use i False yv sz in \<open>simp add: i'_def\<close>)
    moreover have "insert_loop ls val cur i' = Some (Inr Duplicate)"
      by (rule Cons.IH [OF rest [folded i'_def] sy _ Cons.prems(4)]) (use vys in simp)
    ultimately show ?thesis by simp
  qed
qed

lemma insert_loop_links_found:
  assumes "links ls i (x # xs)" "x \<notin> set xs"
    "sorted_wrt (\<lambda>a b. to_uint64 a < to_uint64 b) xs" "val \<noteq> 0"
    "to_uint64 val \<notin> to_uint64 ` set xs" "to_uint64 val \<noteq> 0 \<or> xs \<noteq> []"
    "length ls \<le> 2 ^ 64"
  shows "\<exists>idx. idx < length ls \<and> leaf_value (ls ! idx) \<in> set (x # xs) \<and>
      insert_loop ls val cur i =
        Some (Inr (Found idx (nextIndex (ls ! idx)) (nextValue (ls ! idx))
                     (ls[idx := (ls ! idx)\<lparr>nextValue := val, nextIndex := cur\<rparr>]))) \<and>
      (cur = length ls \<longrightarrow>
         links (ls[idx := (ls ! idx)\<lparr>nextValue := val, nextIndex := cur\<rparr>]
                  @ [\<lparr>leaf_value = val, nextIndex = nextIndex (ls ! idx),
                       nextValue = nextValue (ls ! idx)\<rparr>]) i
           (x # insort_key to_uint64 val xs))"
  using assms
proof (induction xs arbitrary: i x)
  case Nil
  then have i: "i < length ls" "leaf_value (ls ! i) = x" "nextValue (ls ! i) = 0" by simp_all
  have v: "to_uint64 val \<noteq> 0" "val \<noteq> 0" using Nil by simp_all
  have l: "insert_loop ls val cur i =
        Some (Inr (Found i (nextIndex (ls ! i)) (nextValue (ls ! i))
                     (ls[i := (ls ! i)\<lparr>nextValue := val, nextIndex := cur\<rparr>])))"
    by (subst insert_loop.simps) (use i v in \<open>simp add: to_uint64_0\<close>)
  have "links (ls[i := (ls ! i)\<lparr>nextValue := val, nextIndex := length ls\<rparr>]
                  @ [\<lparr>leaf_value = val, nextIndex = nextIndex (ls ! i),
                       nextValue = nextValue (ls ! i)\<rparr>]) i [x, val]"
    using i v by (simp add: nth_append)
  then show ?case using i l by (intro exI [of _ i]) simp
next
  case (Cons y ys)
  then have i: "i < length ls" "leaf_value (ls ! i) = x" "nextValue (ls ! i) = y" "y \<noteq> 0"
      and rest: "links ls (nextIndex (ls ! i)) (y # ys)" by simp_all
  have sy: "sorted_wrt (\<lambda>a b. to_uint64 a < to_uint64 b) ys"
    and yl: "\<forall>z \<in> set ys. to_uint64 y < to_uint64 z" using Cons.prems(3) by simp_all
  have yys: "y \<notin> set ys" using yl by auto
  have vy: "to_uint64 y \<noteq> to_uint64 val" and vys: "to_uint64 val \<notin> to_uint64 ` set ys"
    using Cons.prems(5) by auto
  define i' where "i' = nextIndex (ls ! i)"
  have i'b: "i' < length ls" using rest links_bound by (simp add: i'_def)
  show ?case
  proof (cases "to_uint64 val < to_uint64 y")
    case True
    have l: "insert_loop ls val cur i =
        Some (Inr (Found i (nextIndex (ls ! i)) (nextValue (ls ! i))
                     (ls[i := (ls ! i)\<lparr>nextValue := val, nextIndex := cur\<rparr>])))"
      by (subst insert_loop.simps) (use i vy True in simp)
    have "x \<notin> set (y # ys)" using Cons.prems(2) by simp
    then have "links (ls[i := (ls ! i)\<lparr>nextValue := val, nextIndex := length ls\<rparr>]
                  @ [\<lparr>leaf_value = val, nextIndex = i', nextValue = y\<rparr>]) i' (y # ys)"
      using links_unchanged [OF rest [folded i'_def] i(1)] i(2) by simp
    then have "links (ls[i := (ls ! i)\<lparr>nextValue := val, nextIndex := length ls\<rparr>]
                  @ [\<lparr>leaf_value = val, nextIndex = nextIndex (ls ! i),
                       nextValue = nextValue (ls ! i)\<rparr>]) i (x # val # y # ys)"
      using i Cons.prems(4) by (simp add: nth_append i'_def)
    moreover have "insort_key to_uint64 val (y # ys) = val # y # ys" using True by simp
    ultimately show ?thesis using i l by (intro exI [of _ i]) simp
  next
    case False
    then have yv: "to_uint64 y < to_uint64 val" using vy by simp
    then have v0: "to_uint64 val \<noteq> 0 \<or> ys \<noteq> []" by simp
    have "\<exists>idx. idx < length ls \<and> leaf_value (ls ! idx) \<in> set (y # ys) \<and>
      insert_loop ls val cur i' =
        Some (Inr (Found idx (nextIndex (ls ! idx)) (nextValue (ls ! idx))
                     (ls[idx := (ls ! idx)\<lparr>nextValue := val, nextIndex := cur\<rparr>]))) \<and>
      (cur = length ls \<longrightarrow>
         links (ls[idx := (ls ! idx)\<lparr>nextValue := val, nextIndex := cur\<rparr>]
                  @ [\<lparr>leaf_value = val, nextIndex = nextIndex (ls ! idx),
                       nextValue = nextValue (ls ! idx)\<rparr>]) i'
           (y # insort_key to_uint64 val ys))"
      by (rule Cons.IH [OF rest [folded i'_def] yys sy Cons.prems(4) vys v0 Cons.prems(7)])
    then obtain idx where idx: "idx < length ls" "leaf_value (ls ! idx) \<in> set (y # ys)"
      "insert_loop ls val cur i' =
        Some (Inr (Found idx (nextIndex (ls ! idx)) (nextValue (ls ! idx))
                     (ls[idx := (ls ! idx)\<lparr>nextValue := val, nextIndex := cur\<rparr>])))"
      "cur = length ls \<longrightarrow>
         links (ls[idx := (ls ! idx)\<lparr>nextValue := val, nextIndex := cur\<rparr>]
                  @ [\<lparr>leaf_value = val, nextIndex = nextIndex (ls ! idx),
                       nextValue = nextValue (ls ! idx)\<rparr>]) i'
           (y # insort_key to_uint64 val ys)"
      by blast
    have ne: "i \<noteq> idx" using idx(2) i(2) Cons.prems(2) by auto
    have sz: "to_size_t i' = i'" using i'b Cons.prems(7) by (simp add: to_size_t_id)
    have l: "insert_loop ls val cur i = insert_loop ls val cur i'"
      by (subst insert_loop.simps) (use i vy False sz in \<open>simp add: i'_def\<close>)
    have "cur = length ls \<longrightarrow>
         links (ls[idx := (ls ! idx)\<lparr>nextValue := val, nextIndex := cur\<rparr>]
                  @ [\<lparr>leaf_value = val, nextIndex = nextIndex (ls ! idx),
                       nextValue = nextValue (ls ! idx)\<rparr>]) i
           (x # y # insort_key to_uint64 val ys)"
    proof (cases "insort_key to_uint64 val ys")
      case Nil
      then show ?thesis using set_insort_key [of to_uint64 val ys] by simp
    next
      case (Cons a as)
      then show ?thesis using idx(4) i ne by (simp add: nth_append i'_def)
    qed
    moreover have "insort_key to_uint64 val (y # ys) = y # insort_key to_uint64 val ys"
      using yv by simp
    ultimately show ?thesis using idx l by (intro exI [of _ idx]) auto
  qed
qed

lemma insert_loop_links_zero:
  assumes "links ls i (x # y # ys)" "to_uint64 y \<noteq> 0"
  shows "insert_loop ls 0 cur i =
           Some (Inr (Found i (nextIndex (ls ! i)) (nextValue (ls ! i))
                     (ls[i := (ls ! i)\<lparr>nextValue := 0, nextIndex := cur\<rparr>]))) \<and>
         links (ls[i := (ls ! i)\<lparr>nextValue := 0, nextIndex := cur\<rparr>] @ [nl]) i [x]"
proof -
  have i: "i < length ls" "leaf_value (ls ! i) = x" "nextValue (ls ! i) = y"
    using assms(1) by simp_all
  have "insert_loop ls 0 cur i =
           Some (Inr (Found i (nextIndex (ls ! i)) (nextValue (ls ! i))
                     (ls[i := (ls ! i)\<lparr>nextValue := 0, nextIndex := cur\<rparr>])))"
    by (subst insert_loop.simps) (use i assms(2) in \<open>simp add: to_uint64_0\<close>)
  then show ?thesis using i by (simp add: nth_append)
qed

lemma links_follow:
  assumes "links ls i xs" "length xs \<le> n" "length ls \<le> 2 ^ 64"
  shows "follow n ls i = xs"
  using assms
proof (induction xs arbitrary: i n)
  case Nil
  then show ?case by simp
next
  case (Cons x xs)
  obtain m where m: "n = Suc m" using Cons.prems(2) by (cases n) auto
  show ?case
  proof (cases xs)
    case Nil
    then show ?thesis using Cons.prems by (simp add: m)
  next
    case (Cons y ys)
    have i: "i < length ls" "leaf_value (ls ! i) = x" "nextValue (ls ! i) = y" "y \<noteq> 0"
      and rest: "links ls (nextIndex (ls ! i)) xs" using Cons.prems(1) Cons by simp_all
    have "nextIndex (ls ! i) < length ls" using rest links_bound by blast
    then have sz: "to_size_t (nextIndex (ls ! i)) = nextIndex (ls ! i)"
      using Cons.prems(3) by (simp add: to_size_t_id)
    have "follow m ls (nextIndex (ls ! i)) = xs"
      by (rule Cons.IH) (use rest Cons.prems m in simp_all)
    then show ?thesis using i sz by (simp add: m)
  qed
qed

lemma linked_values_reach:
  assumes "reach_inv P t xs"
  shows "linked_values t = 0 # xs"
proof -
  have li: "links_inv (leaves t) xs" and sh: "shape t" and le: "length (leaves t) \<le> total_size t"
    using assms by (simp_all add: reach_inv_def)
  have "length (leaves t) \<le> 2 ^ 64" using le shape_ts [OF sh] by simp
  then show ?thesis
    unfolding linked_values_def using li
    by (intro links_follow) (simp_all add: links_inv_def)
qed

lemma reach_inv_dup:
  assumes inv: "reach_inv P t xs"
    and v: "to_uint64 val \<in> to_uint64 ` set xs \<or> (to_uint64 val = 0 \<and> xs = [])"
  shows "update_element P t val = Some (Inr (0, t))"
proof (cases "length (leaves t) \<ge> total_size t")
  case True
  then show ?thesis by (simp add: update_element_def)
next
  case False
  have sh: "shape t" and li: "links_inv (leaves t) xs"
    using inv by (simp_all add: reach_inv_def)
  have l64: "length (leaves t) \<le> 2 ^ 64" using False shape_ts [OF sh] by simp
  have ch: "links (leaves t) 0 (0 # xs)"
    and so: "sorted_wrt (\<lambda>a b. to_uint64 a < to_uint64 b) xs"
    using li by (simp_all add: links_inv_def)
  have "insert_loop (leaves t) val (length (leaves t)) 0 = Some (Inr Duplicate)"
    by (rule insert_loop_links_dup [OF ch so v l64])
  then show ?thesis using False by (simp add: update_element_def)
qed

lemma reach_inv_present:
  assumes "reach_inv P t xs" "val \<in> set xs"
  shows "update_element P t val = Some (Inr (0, t))"
  by (rule reach_inv_dup [OF assms(1)]) (use assms(2) in simp)

lemma reach_inv_new:
  assumes inv: "reach_inv P t xs"
    and v: "val \<noteq> 0" "to_uint64 val \<notin> to_uint64 ` set xs" "to_uint64 val \<noteq> 0 \<or> xs \<noteq> []"
    and room: "length (leaves t) < total_size t"
  shows "\<exists>t'. update_element P t val = Some (Inr (0, t')) \<and>
           reach_inv P t' (insort_key to_uint64 val xs) \<and>
           depth t' = depth t \<and> length (leaves t') = Suc (length (leaves t))"
proof -
  define ls where "ls = leaves t"
  define n where "n = length ls"
  have sh: "shape t" and h: "hashed P t" and li: "links_inv ls xs"
    using inv by (simp_all add: reach_inv_def ls_def)
  have ch: "links ls 0 (0 # xs)" and so: "sorted_wrt (\<lambda>a b. to_uint64 a < to_uint64 b) xs"
    and z: "0 \<notin> set xs" and ln: "Suc (length xs) \<le> n"
    using li by (simp_all add: links_inv_def n_def)
  have l64: "length ls \<le> 2 ^ 64" using room shape_ts [OF sh] by (simp add: ls_def)
  from insert_loop_links_found [OF ch z so v l64, of n]
  obtain idx where idx: "idx < n"
    and lp: "insert_loop ls val n 0 =
        Some (Inr (Found idx (nextIndex (ls ! idx)) (nextValue (ls ! idx))
                     (ls[idx := (ls ! idx)\<lparr>nextValue := val, nextIndex := n\<rparr>])))"
    and ch': "links (ls[idx := (ls ! idx)\<lparr>nextValue := val, nextIndex := n\<rparr>]
                  @ [\<lparr>leaf_value = val, nextIndex = nextIndex (ls ! idx),
                       nextValue = nextValue (ls ! idx)\<rparr>]) 0
                (0 # insort_key to_uint64 val xs)"
    by (auto simp: n_def)
  have "\<exists>t'. insert_finish P t val (length (leaves t)) idx (nextIndex (ls ! idx))
                (nextValue (ls ! idx)) (ls[idx := (ls ! idx)\<lparr>nextValue := val, nextIndex := n\<rparr>])
                = Inr (0, t') \<and>
           shape t' \<and> hashed P t' \<and> depth t' = depth t \<and>
           leaves t' = ls[idx := (ls ! idx)\<lparr>nextValue := val, nextIndex := n\<rparr>]
                  @ [\<lparr>leaf_value = val, nextIndex = nextIndex (ls ! idx),
                       nextValue = nextValue (ls ! idx)\<rparr>]"
    by (rule insert_finish_ok [OF sh h room]) (use idx in \<open>simp_all add: n_def ls_def\<close>)
  then obtain t' where t': "insert_finish P t val n idx (nextIndex (ls ! idx))
                (nextValue (ls ! idx)) (ls[idx := (ls ! idx)\<lparr>nextValue := val, nextIndex := n\<rparr>])
                = Inr (0, t')"
      "shape t'" "hashed P t'" "depth t' = depth t"
      "leaves t' = ls[idx := (ls ! idx)\<lparr>nextValue := val, nextIndex := n\<rparr>]
                  @ [\<lparr>leaf_value = val, nextIndex = nextIndex (ls ! idx),
                       nextValue = nextValue (ls ! idx)\<rparr>]"
    by (auto simp: n_def ls_def)
  have ue: "update_element P t val = Some (Inr (0, t'))"
    unfolding update_element_def Let_def ls_def [symmetric] n_def [symmetric]
    using room lp t'(1) by (simp add: n_def ls_def)
  have len': "length (leaves t') = Suc n" by (simp add: t'(5) n_def)
  have ts: "total_size t' = total_size t" using sh t'(2,4) by (simp add: shape_def)
  have "links_inv (leaves t') (insort_key to_uint64 val xs)"
    using ch' low64_insort [OF so v(2)] z v(1) ln len'
    by (auto simp: links_inv_def t'(5) set_insort_key)
  moreover have "length (leaves t') \<le> total_size t'"
    using len' room by (simp add: ts n_def ls_def)
  ultimately show ?thesis using ue t'(2,3,4) len' by (auto simp: reach_inv_def n_def ls_def)
qed

lemma reach_inv_zero:
  assumes inv: "reach_inv P t (y # ys)" and y: "to_uint64 y \<noteq> 0"
    and room: "length (leaves t) < total_size t"
  shows "\<exists>t'. update_element P t 0 = Some (Inr (0, t')) \<and> reach_inv P t' [] \<and>
           depth t' = depth t"
proof -
  define ls where "ls = leaves t"
  define n where "n = length ls"
  have sh: "shape t" and h: "hashed P t" and li: "links_inv ls (y # ys)"
    using inv by (simp_all add: reach_inv_def ls_def)
  have ch: "links ls 0 (0 # y # ys)" and ln: "0 < n"
    using li by (simp_all add: links_inv_def n_def)
  define nl where "nl = \<lparr>leaf_value = 0, nextIndex = nextIndex (ls ! 0),
                       nextValue = nextValue (ls ! 0)\<rparr>"
  have lp: "insert_loop ls 0 n 0 =
           Some (Inr (Found 0 (nextIndex (ls ! 0)) (nextValue (ls ! 0))
                     (ls[0 := (ls ! 0)\<lparr>nextValue := 0, nextIndex := n\<rparr>])))"
    and ch': "links (ls[0 := (ls ! 0)\<lparr>nextValue := 0, nextIndex := n\<rparr>] @ [nl]) 0 [0]"
    using insert_loop_links_zero [OF ch y, of n nl] by simp_all
  have "\<exists>t'. insert_finish P t 0 (length (leaves t)) 0 (nextIndex (ls ! 0))
                (nextValue (ls ! 0)) (ls[0 := (ls ! 0)\<lparr>nextValue := 0, nextIndex := n\<rparr>])
                = Inr (0, t') \<and>
           shape t' \<and> hashed P t' \<and> depth t' = depth t \<and>
           leaves t' = ls[0 := (ls ! 0)\<lparr>nextValue := 0, nextIndex := n\<rparr>]
                  @ [\<lparr>leaf_value = 0, nextIndex = nextIndex (ls ! 0),
                       nextValue = nextValue (ls ! 0)\<rparr>]"
    by (rule insert_finish_ok [OF sh h room]) (use ln in \<open>simp_all add: n_def ls_def\<close>)
  then obtain t' where t': "insert_finish P t 0 n 0 (nextIndex (ls ! 0))
                (nextValue (ls ! 0)) (ls[0 := (ls ! 0)\<lparr>nextValue := 0, nextIndex := n\<rparr>])
                = Inr (0, t')"
      "shape t'" "hashed P t'" "depth t' = depth t"
      "leaves t' = ls[0 := (ls ! 0)\<lparr>nextValue := 0, nextIndex := n\<rparr>] @ [nl]"
    by (auto simp: n_def ls_def nl_def)
  have ue: "update_element P t 0 = Some (Inr (0, t'))"
    unfolding update_element_def Let_def ls_def [symmetric] n_def [symmetric]
    using room lp t'(1) by (simp add: n_def ls_def)
  have len': "length (leaves t') = Suc n" by (simp add: t'(5) n_def)
  have ts: "total_size t' = total_size t" using sh t'(2,4) by (simp add: shape_def)
  have "links_inv (leaves t') []"
    using ch' len' by (simp add: links_inv_def t'(5))
  moreover have "length (leaves t') \<le> total_size t'"
    using len' room by (simp add: ts n_def ls_def)
  ultimately show ?thesis using ue t'(2,3,4) by (auto simp: reach_inv_def)
qed

text \<open>On a tree with the invariant every call of \<^verbatim>\<open>update_element\<close> returns, and keeps it.\<close>

lemma update_element_reach:
  assumes inv: "reach_inv P t xs"
  shows "\<exists>t' xs'. update_element P t val = Some (Inr (0, t')) \<and> reach_inv P t' xs' \<and>
           depth t' = depth t"
proof (cases "total_size t \<le> length (leaves t)")
  case True
  then have "update_element P t val = Some (Inr (0, t))" by (rule update_element_full)
  then show ?thesis using inv by blast
next
  case False
  then have room: "length (leaves t) < total_size t" by simp
  show ?thesis
  proof (cases "to_uint64 val \<in> to_uint64 ` set xs \<or> (to_uint64 val = 0 \<and> xs = [])")
    case True
    then have "update_element P t val = Some (Inr (0, t))" by (rule reach_inv_dup [OF inv])
    then show ?thesis using inv by blast
  next
    case nd: False
    show ?thesis
    proof (cases "val = 0")
      case True
      then obtain y ys where xs: "xs = y # ys" using nd by (cases xs) (auto simp: to_uint64_0)
      have "to_uint64 y \<noteq> 0" using nd True xs by (auto simp: to_uint64_0)
      from reach_inv_zero [OF inv [unfolded xs] this room] show ?thesis using True by blast
    next
      case False
      have "\<exists>t'. update_element P t val = Some (Inr (0, t')) \<and>
           reach_inv P t' (insort_key to_uint64 val xs) \<and>
           depth t' = depth t \<and> length (leaves t') = Suc (length (leaves t))"
        by (rule reach_inv_new [OF inv False _ _ room]) (use nd in auto)
      then show ?thesis by blast
    qed
  qed
qed

lemma update_elements_reach:
  assumes "reach_inv P t xs"
  shows "\<exists>t' ys. update_elements P t vs = Some (Inr t') \<and> reach_inv P t' ys \<and>
           depth t' = depth t \<and> (vs = [] \<longrightarrow> ys = xs)"
  using assms
proof (induction vs arbitrary: t xs)
  case Nil
  then show ?case by auto
next
  case (Cons v vs)
  obtain t1 zs where t1: "update_element P t v = Some (Inr (0, t1))" "reach_inv P t1 zs"
      "depth t1 = depth t"
    using update_element_reach [OF Cons.prems] by blast
  obtain t' ys where "update_elements P t1 vs = Some (Inr t')" "reach_inv P t' ys"
      "depth t' = depth t1"
    using Cons.IH [OF t1(2)] by blast
  then show ?case using t1 by auto
qed

lemma construct_reach:
  assumes "1 \<le> d" "d \<le> 30"
  shows "\<exists>t. IndexedMerkleTree P d = Inr t \<and> reach_inv P t [] \<and> depth t = d"
proof -
  obtain t where t: "IndexedMerkleTree P d = Inr t" "shape t" "depth t = d" "hashed P t"
      "leaves t = [zero_leaf]"
    using construct_ok [OF assms] by blast
  have "links_inv (leaves t) []" by (simp add: links_inv_def t(5) zero_leaf_def)
  moreover have "length (leaves t) \<le> total_size t" using shape_ts [OF t(2)] t(5) by simp
  ultimately show ?thesis using t by (auto simp: reach_inv_def)
qed

text \<open>
  Every sequence of insertions into a new tree of depth at most 30 returns a tree, and the
  tree has the invariant.
\<close>

lemma reachable_reach:
  assumes "1 \<le> d" "d \<le> 30"
  shows "\<exists>t0 t xs. IndexedMerkleTree P d = Inr t0 \<and> update_elements P t0 vs = Some (Inr t) \<and>
           reach_inv P t xs \<and> depth t = d \<and> (vs = [] \<longrightarrow> xs = [])"
proof -
  obtain t0 where t0: "IndexedMerkleTree P d = Inr t0" "reach_inv P t0 []" "depth t0 = d"
    using construct_reach [OF assms] by blast
  obtain t ys where "update_elements P t0 vs = Some (Inr t)" "reach_inv P t ys"
      "depth t = depth t0" "vs = [] \<longrightarrow> ys = []"
    using update_elements_reach [OF t0(2)] by blast
  then show ?thesis using t0 by blast
qed





lemma tree_2_run_big5_7:
  "case update_elements test_primitives tree_2 [18446744073709551621, 7] of
     Some (Inr t) \<Rightarrow> tl (linked_values t) = [18446744073709551621, 7]
   | _ \<Rightarrow> False"
  by (simp add: eval_defs tree_defs cong: eval_congs)

section \<open>The claims\<close>

subsection \<open>C1: the linked list\<close>

text \<open>
  C1, amended. For every sequence of distinct values between 1 and \<open>2 ^ 64 - 1\<close> inserted
  one at a time into a new tree of depth at most 30 with enough free slots, after each
  insertion the values met by following \<^verbatim>\<open>nextIndex\<close> from leaf 0 are the sentinel's 0 and
  then, in strictly ascending order, exactly the values inserted so far; in both
  implementations.
\<close>

theorem linked_list_sorted:
  assumes "1 \<le> d" "d \<le> 30" "distinct vs" "\<forall>v \<in> set vs. 0 < v \<and> v < 2 ^ 64"
    "length vs < 2 ^ d"
  shows "\<forall>k \<le> length vs. \<exists>t0 t s0 s ys.
           IndexedMerkleTree P d = Inr t0 \<and>
           update_elements P t0 (take k vs) = Some (Inr t) \<and>
           IndexedMerkleTree_rehash P d = Inr s0 \<and>
           update_elements_rehash P s0 (take k vs) = Some (Inr s) \<and>
           linked_values t = 0 # ys \<and> linked_values_r s = 0 # ys \<and>
           sorted_wrt (<) (0 # ys) \<and> mset ys = mset (take k vs)"
proof (intro allI impI)
  fix k assume k: "k \<le> length vs"
  from sorted_run [OF assms, of P, rule_format, OF k]
  obtain t0 t ys where t: "IndexedMerkleTree P d = Inr t0"
      "update_elements P t0 (take k vs) = Some (Inr t)"
      "linked_values t = 0 # ys" "sorted_wrt (<) (0 # ys)" "mset ys = mset (take k vs)"
    by blast
  obtain s0 s where s: "IndexedMerkleTree_rehash P d = Inr s0"
      "update_elements_rehash P s0 (take k vs) = Some (Inr s)" "sim t s"
    using rehash_simulation [OF t(1,2)] by blast
  have "linked_values_r s = 0 # ys" using linked_values_sim [OF s(3)] t(3) by simp
  then show "\<exists>t0 t s0 s ys.
           IndexedMerkleTree P d = Inr t0 \<and>
           update_elements P t0 (take k vs) = Some (Inr t) \<and>
           IndexedMerkleTree_rehash P d = Inr s0 \<and>
           update_elements_rehash P s0 (take k vs) = Some (Inr s) \<and>
           linked_values t = 0 # ys \<and> linked_values_r s = 0 # ys \<and>
           sorted_wrt (<) (0 # ys) \<and> mset ys = mset (take k vs)"
    using t s(1,2) by blast
qed

theorem linked_list_sorted_witness:
  "distinct [30, 10::nat] \<and> length [30, 10::nat] < 2 ^ 2 \<and>
   (\<exists>t0 t s0 s ys.
      IndexedMerkleTree test_primitives 2 = Inr t0 \<and>
      update_elements test_primitives t0 [30, 10] = Some (Inr t) \<and>
      IndexedMerkleTree_rehash test_primitives 2 = Inr s0 \<and>
      update_elements_rehash test_primitives s0 [30, 10] = Some (Inr s) \<and>
      linked_values t = 0 # ys \<and> linked_values_r s = 0 # ys \<and>
      sorted_wrt (<) (0 # ys) \<and> mset ys = mset [30, 10])"
proof -
  have h: "(1::nat) \<le> 2" "(2::nat) \<le> 30" "distinct [30, 10::nat]"
    "\<forall>v \<in> set [30, 10::nat]. 0 < v \<and> v < 2 ^ 64" "length [30, 10::nat] < 2 ^ 2"
    by simp_all
  from linked_list_sorted [OF h, of test_primitives, rule_format, of 2] h(3,5)
  show ?thesis by simp
qed

text \<open>
  C1 as stated fails: \<open>2 ^ 64\<close> is a non-zero value, the tree of depth 1 has a free slot,
  and the insertion is dropped, because the low 64 bits of \<open>2 ^ 64\<close> are those of the
  sentinel's \<^verbatim>\<open>nextValue\<close> 0. The list still holds the sentinel alone.
\<close>

theorem linked_list_counterexample:
  "IndexedMerkleTree test_primitives 1 = Inr tree_1 \<and>
   update_elements test_primitives tree_1 [18446744073709551616] = Some (Inr tree_1) \<and>
   linked_values tree_1 = [0] \<and>
   mset (tl (linked_values tree_1)) \<noteq> mset [18446744073709551616]"
proof -
  have "update_elements test_primitives tree_1 [18446744073709551616] = Some (Inr tree_1)"
    by (simp add: eval_defs tree_1_def cong: eval_congs)
  moreover have "linked_values tree_1 = [0]"
    by (simp add: eval_defs tree_1_def cong: eval_congs)
  ultimately show ?thesis using construct_tree_1 by simp
qed

subsection \<open>C2: the hash path recombines to the root\<close>




subsection \<open>C3: what update_element returns\<close>




subsection \<open>C4: a value that is present\<close>

text \<open>
  C4, amended. On every tree that the constructor and calls of \<^verbatim>\<open>update_element\<close> produce,
  \<^verbatim>\<open>update_element\<close> of a value that is already in the linked list returns 0, as every call
  does, and leaves the whole tree as it was: root, leaves, hashes and flags. The same
  holds for the value 0 as long as nothing has been inserted. Both implementations behave
  so.
\<close>

theorem present_value_noop:
  assumes c: "IndexedMerkleTree P d = Inr t0"
  shows "\<exists>t s0 s. update_elements P t0 vs = Some (Inr t) \<and>
           IndexedMerkleTree_rehash P d = Inr s0 \<and>
           update_elements_rehash P s0 vs = Some (Inr s) \<and> leaves_r s = leaves t \<and>
           (\<forall>val \<in> set (tl (linked_values t)).
              update_element P t val = Some (Inr (0, t)) \<and>
              update_element_rehash P s val = Some (Inr (0, s))) \<and>
           (vs = [] \<longrightarrow> update_element P t 0 = Some (Inr (0, t)) \<and>
                        update_element_rehash P s 0 = Some (Inr (0, s)))"
proof -
  have d: "1 \<le> d" "d \<le> 30" using construct_Inr_depth [OF c] by simp_all
  obtain t xs where t: "update_elements P t0 vs = Some (Inr t)" "reach_inv P t xs"
      "vs = [] \<longrightarrow> xs = []"
    using reachable_reach [OF d, of P vs] c by auto
  have lv: "tl (linked_values t) = xs" using linked_values_reach [OF t(2)] by simp
  have r: "shape t" "hashed P t" using t(2) by (simp_all add: reach_inv_def)
  have a: "\<forall>val \<in> set (tl (linked_values t)). update_element P t val = Some (Inr (0, t))"
    using reach_inv_present [OF t(2)] lv by simp
  have b: "vs = [] \<longrightarrow> update_element P t 0 = Some (Inr (0, t))"
    using reach_inv_dup [OF t(2), of 0] t(3) by (simp add: to_uint64_0)
  obtain s0 s where s: "IndexedMerkleTree_rehash P d = Inr s0"
      "update_elements_rehash P s0 vs = Some (Inr s)" "sim t s" "shape_r s"
    using rehash_simulation [OF c t(1)] by blast
  note n = update_element_rehash_noop [OF s(3) r s(4)]
  have "\<forall>val \<in> set (tl (linked_values t)).
              update_element P t val = Some (Inr (0, t)) \<and>
              update_element_rehash P s val = Some (Inr (0, s))"
    using a n by blast
  moreover have "vs = [] \<longrightarrow> update_element P t 0 = Some (Inr (0, t)) \<and>
                        update_element_rehash P s 0 = Some (Inr (0, s))"
    using b n by blast
  moreover have "leaves_r s = leaves t" using s(3) by (simp add: sim_def)
  ultimately show ?thesis using t(1) s(1,2) by blast
qed

theorem present_value_noop_witness:
  "\<exists>t s0 s. IndexedMerkleTree test_primitives 2 = Inr tree_2 \<and>
      update_elements test_primitives tree_2 [18446744073709551621, 7] = Some (Inr t) \<and>
      IndexedMerkleTree_rehash test_primitives 2 = Inr s0 \<and>
      update_elements_rehash test_primitives s0 [18446744073709551621, 7] = Some (Inr s) \<and>
      tl (linked_values t) = [18446744073709551621, 7] \<and>
      update_element test_primitives t 7 = Some (Inr (0, t)) \<and>
      update_element_rehash test_primitives s 7 = Some (Inr (0, s)) \<and>
      update_element test_primitives t 18446744073709551621 = Some (Inr (0, t)) \<and>
      update_element_rehash test_primitives s 18446744073709551621 = Some (Inr (0, s))"
proof -
  from present_value_noop [OF construct_tree_2, of "[18446744073709551621, 7]"]
  obtain t s0 s where a:
      "update_elements test_primitives tree_2 [18446744073709551621, 7] = Some (Inr t)"
      "IndexedMerkleTree_rehash test_primitives 2 = Inr s0"
      "update_elements_rehash test_primitives s0 [18446744073709551621, 7] = Some (Inr s)"
      "\<forall>val \<in> set (tl (linked_values t)).
          update_element test_primitives t val = Some (Inr (0, t)) \<and>
          update_element_rehash test_primitives s val = Some (Inr (0, s))"
    by blast
  have lv: "tl (linked_values t) = [18446744073709551621, 7]"
    using tree_2_run_big5_7 a(1) by simp
  have "update_element test_primitives t 7 = Some (Inr (0, t))"
      "update_element_rehash test_primitives s 7 = Some (Inr (0, s))"
      "update_element test_primitives t 18446744073709551621 = Some (Inr (0, t))"
      "update_element_rehash test_primitives s 18446744073709551621 = Some (Inr (0, s))"
    using a(4) unfolding lv by simp_all
  then show ?thesis using construct_tree_2 a(1,2,3) lv by blast
qed

text \<open>
  C4 as stated fails. On the tree of depth 2 that holds 30, \<^verbatim>\<open>update_element(30)\<close> returns
  0 and not the root 2654, and \<^verbatim>\<open>update_element(0)\<close> is no no-op: it appends a leaf with
  value 0 after the sentinel and changes the root. (The sentinel's \<^verbatim>\<open>nextValue\<close> is then 0,
  which reads as the end of the list.)
\<close>

theorem present_value_counterexample:
  "update_element test_primitives tree_2 30 = Some (Inr (0, tree_2_30)) \<and>
   update_element test_primitives tree_2_30 30 = Some (Inr (0, tree_2_30)) \<and>
   root tree_2_30 = 2654 \<and>
   update_element test_primitives tree_2_30 0 = Some (Inr (0, tree_2_30_0)) \<and>
   length (leaves tree_2_30_0) = 3 \<and> root tree_2_30_0 = 3566 \<and> tree_2_30_0 \<noteq> tree_2_30"
proof -
  have "update_element test_primitives tree_2_30 30 = Some (Inr (0, tree_2_30))"
    by (simp add: eval_defs tree_defs cong: eval_congs)
  moreover have "update_element test_primitives tree_2_30 0 = Some (Inr (0, tree_2_30_0))"
    by (simp add: eval_defs tree_defs cong: eval_congs)
  moreover have "length (leaves tree_2_30_0) = 3 \<and> root tree_2_30_0 = 3566 \<and> root tree_2_30 = 2654
      \<and> tree_2_30_0 \<noteq> tree_2_30"
    by (simp add: tree_defs)
  ultimately show ?thesis using tree_2_insert_30 by simp
qed

subsection \<open>C5: a full tree\<close>

text \<open>
  C5, amended. Inserting \<open>total_size\<close> distinct values between 1 and \<open>2 ^ 64 - 1\<close> into a
  new tree of depth at most 30 leaves \<open>total_size\<close> occupied slots: the sentinel and all
  values but the last, which is dropped. Every further \<^verbatim>\<open>update_element\<close> returns 0, as a
  successful call does, and leaves the whole tree unchanged. Both implementations behave
  so.
\<close>

theorem full_tree_noop:
  assumes "1 \<le> d" "d \<le> 30" "distinct vs" "\<forall>v \<in> set vs. 0 < v \<and> v < 2 ^ 64"
    "length vs = 2 ^ d"
  shows "\<exists>t0 t s0 s. IndexedMerkleTree P d = Inr t0 \<and> update_elements P t0 vs = Some (Inr t) \<and>
           IndexedMerkleTree_rehash P d = Inr s0 \<and>
           update_elements_rehash P s0 vs = Some (Inr s) \<and>
           length (leaves t) = total_size t \<and> total_size t = 2 ^ d \<and>
           leaves_r s = leaves t \<and> total_size_r s = 2 ^ d \<and>
           mset (tl (linked_values t)) = mset (butlast vs) \<and>
           (\<forall>v. update_element P t v = Some (Inr (0, t)) \<and>
                update_element_rehash P s v = Some (Inr (0, s)))"
proof -
  obtain t0 t where t: "IndexedMerkleTree P d = Inr t0" "update_elements P t0 vs = Some (Inr t)"
    and f: "length (leaves t) = total_size t" "total_size t = 2 ^ d"
      "mset (tl (linked_values t)) = mset (butlast vs)"
      "\<forall>v. update_element P t v = Some (Inr (0, t))"
    using full_run [OF assms, of P] by blast
  obtain s0 s where s: "IndexedMerkleTree_rehash P d = Inr s0"
      "update_elements_rehash P s0 vs = Some (Inr s)" "sim t s"
    using rehash_simulation [OF t] by blast
  have e: "leaves_r s = leaves t" "total_size_r s = 2 ^ d"
    using s(3) f(2) by (simp_all add: sim_def)
  have "update_element_rehash P s v = Some (Inr (0, s))" for v
    by (rule update_element_rehash_full) (use e f(1,2) in simp)
  then show ?thesis using t s(1,2) f e by blast
qed

theorem full_tree_noop_witness:
  "\<exists>t0 t s0 s. IndexedMerkleTree test_primitives 1 = Inr t0 \<and>
      update_elements test_primitives t0 [5, 7] = Some (Inr t) \<and>
      IndexedMerkleTree_rehash test_primitives 1 = Inr s0 \<and>
      update_elements_rehash test_primitives s0 [5, 7] = Some (Inr s) \<and>
      length (leaves t) = 2 \<and> length (leaves_r s) = 2 \<and>
      update_element test_primitives t 9 = Some (Inr (0, t)) \<and>
      update_element_rehash test_primitives s 9 = Some (Inr (0, s))"
proof -
  have h: "(1::nat) \<le> 1" "(1::nat) \<le> 30" "distinct [5, 7::nat]"
    "\<forall>v \<in> set [5, 7::nat]. 0 < v \<and> v < 2 ^ 64" "length [5, 7::nat] = 2 ^ 1"
    by simp_all
  from full_tree_noop [OF h, of test_primitives]
  obtain t0 t s0 s where t: "IndexedMerkleTree test_primitives 1 = Inr t0"
      "update_elements test_primitives t0 [5, 7] = Some (Inr t)"
      "IndexedMerkleTree_rehash test_primitives 1 = Inr s0"
      "update_elements_rehash test_primitives s0 [5, 7] = Some (Inr s)"
      "length (leaves t) = total_size t" "total_size t = 2 ^ 1" "leaves_r s = leaves t"
      "\<forall>v. update_element test_primitives t v = Some (Inr (0, t)) \<and>
           update_element_rehash test_primitives s v = Some (Inr (0, s))"
    by blast
  have "length (leaves t) = 2" "length (leaves_r s) = 2" using t(5,6,7) by simp_all
  then show ?thesis using t(1-4,8) by blast
qed

text \<open>
  C5 as stated fails: the call on the full tree is no error. It returns the value 0 and
  the tree, exactly as the successful call before it.
\<close>

theorem full_tree_counterexample:
  "update_element test_primitives tree_1 5 = Some (Inr (0, tree_1_5)) \<and>
   length (leaves tree_1_5) = total_size tree_1_5 \<and>
   update_element test_primitives tree_1_5 7 = Some (Inr (0, tree_1_5))"
proof -
  have "update_element test_primitives tree_1_5 7 = Some (Inr (0, tree_1_5))"
    by (simp add: eval_defs tree_defs cong: eval_congs)
  moreover have "length (leaves tree_1_5) = total_size tree_1_5" by (simp add: tree_defs)
  ultimately show ?thesis using tree_1_insert_5 by simp
qed

subsection \<open>C6: the root of a new tree\<close>

text \<open>
  C6 (the root of a newly constructed tree of any depth in [1,32] is the iterated
  compression of the zero-leaf hash). The level table is filled with the 32-bit shift
  \<^verbatim>\<open>1 << (depth_ - (i - 1))\<close>. At depth 31 its entry 1 is \<open>2 ^ 64 - 2 ^ 31\<close> instead of
  \<open>2 ^ 31\<close>, \<^verbatim>\<open>build_hashes_from_leaves\<close> then takes node \<open>2 ^ 31\<close> for a node of level 0 and
  reads \<^verbatim>\<open>hashes_[2 ^ 32]\<close>, beyond the end of the vector; at depth 32 the shift count is
  the width of \<^verbatim>\<open>int\<close>. Neither construction yields a root, and the constructor of the
  full-rehash implementation fails in the same way. For the depths 1 to 30 the claim
  holds (\<open>construct_root\<close>).
\<close>

theorem construct_depth_31_32_fails:
  "IndexedMerkleTree P 31 = Inl OutOfBounds \<and> IndexedMerkleTree P 32 = Inl UndefinedShift \<and>
   IndexedMerkleTree_rehash P 31 = Inl OutOfBounds \<and>
   IndexedMerkleTree_rehash P 32 = Inl UndefinedShift"
proof (intro conjI)
  show "IndexedMerkleTree P 31 = Inl OutOfBounds" by (rule construct_31)
  show "IndexedMerkleTree P 32 = Inl UndefinedShift"
    by (rule construct_level_Inl [OF _ _ level_loop_32]) simp_all
  show "IndexedMerkleTree_rehash P 31 = Inl OutOfBounds" by (rule construct_rehash_31)
  show "IndexedMerkleTree_rehash P 32 = Inl UndefinedShift" by (rule construct_rehash_32)
qed

subsection \<open>C7: the scenario 30, 10, 20, 50\<close>

text \<open>
  C7. On a tree of depth 3, inserting 30, 10, 20 and 50 in that order gives the leaf
  pre-images \<open>{0,2,10}\<close>, \<open>{30,4,50}\<close>, \<open>{10,3,20}\<close>, \<open>{20,1,30}\<close>, \<open>{50,0,0}\<close> at the
  indices 0 to 4, and five occupied slots, whatever the hash primitives are, in both
  implementations.
\<close>

theorem scenario_30_10_20_50:
  "\<exists>t0 t s0 s. IndexedMerkleTree P 3 = Inr t0 \<and>
         update_elements P t0 [30, 10, 20, 50] = Some (Inr t) \<and>
         IndexedMerkleTree_rehash P 3 = Inr s0 \<and>
         update_elements_rehash P s0 [30, 10, 20, 50] = Some (Inr s) \<and>
         leaves t = [\<lparr>leaf_value = 0, nextIndex = 2, nextValue = 10\<rparr>,
                     \<lparr>leaf_value = 30, nextIndex = 4, nextValue = 50\<rparr>,
                     \<lparr>leaf_value = 10, nextIndex = 3, nextValue = 20\<rparr>,
                     \<lparr>leaf_value = 20, nextIndex = 1, nextValue = 30\<rparr>,
                     \<lparr>leaf_value = 50, nextIndex = 0, nextValue = 0\<rparr>] \<and>
         leaves_r s = leaves t \<and> length (leaves t) = 5 \<and> length (leaves_r s) = 5"
proof -
  obtain t0 t where t: "IndexedMerkleTree P 3 = Inr t0"
      "update_elements P t0 [30, 10, 20, 50] = Some (Inr t)"
      "leaves t = [\<lparr>leaf_value = 0, nextIndex = 2, nextValue = 10\<rparr>,
                     \<lparr>leaf_value = 30, nextIndex = 4, nextValue = 50\<rparr>,
                     \<lparr>leaf_value = 10, nextIndex = 3, nextValue = 20\<rparr>,
                     \<lparr>leaf_value = 20, nextIndex = 1, nextValue = 30\<rparr>,
                     \<lparr>leaf_value = 50, nextIndex = 0, nextValue = 0\<rparr>]"
    using scenario_run [of P] by blast
  obtain s0 s where s: "IndexedMerkleTree_rehash P 3 = Inr s0"
      "update_elements_rehash P s0 [30, 10, 20, 50] = Some (Inr s)" "sim t s"
    using rehash_simulation [OF t(1,2)] by blast
  have e: "leaves_r s = leaves t" using s(3) by (simp add: sim_def)
  have "length (leaves t) = 5" "length (leaves_r s) = 5" by (simp_all add: e t(3))
  then show ?thesis using t s(1,2) e by blast
qed

subsection \<open>C8: what get_hash_path writes\<close>

text \<open>
  C8, amended. \<^verbatim>\<open>get_hash_path\<close> of the dirty-tracking implementation returns with the
  tree as it was. \<^verbatim>\<open>get_hash_path\<close> of the full-rehash implementation writes \<^verbatim>\<open>hashes_\<close> and
  \<^verbatim>\<open>root_\<close>: it leaves the leaf pre-images (and with them the occupied count), the depth,
  the total size, the length of \<^verbatim>\<open>hashes_\<close> and its leaf level as they were, and the whole
  tree when, at depth at most 30, the internal nodes and the root were up to date.
\<close>

theorem hash_path_frame:
  "(get_hash_path t idx = Inr (p, t') \<longrightarrow> t' = t) \<and>
   (get_hash_path_rehash P s idx = Inr (q, s') \<longrightarrow>
      leaves_r s' = leaves_r s \<and> depth_r s' = depth_r s \<and>
      total_size_r s' = total_size_r s \<and>
      length (hashes_r s') = length (hashes_r s) \<and>
      take (total_size_r s) (hashes_r s') = take (total_size_r s) (hashes_r s) \<and>
      (shape_r s \<and> hashed_r P s \<longrightarrow> s' = s))"
proof (intro conjI impI)
  assume "get_hash_path t idx = Inr (p, t')"
  then show "t' = t"
    by (auto simp: get_hash_path_def Let_def split: if_splits sum.splits)
next
  assume g: "get_hash_path_rehash P s idx = Inr (q, s')"
  show "leaves_r s' = leaves_r s" "depth_r s' = depth_r s" "total_size_r s' = total_size_r s"
    "length (hashes_r s') = length (hashes_r s)"
    "take (total_size_r s) (hashes_r s') = take (total_size_r s) (hashes_r s)"
    using get_hash_path_rehash_frame [OF g] by simp_all
  assume "shape_r s \<and> hashed_r P s"
  then show "s' = s" using get_hash_path_rehash_id [OF _ _ g] by simp
qed

theorem hash_path_frame_witness:
  "get_hash_path tree_2_30 0 = Inr ([(214, 31), (522, 6)], tree_2_30) \<and>
   get_hash_path_rehash test_primitives rtree_2_30 0
     = Inr ([(214, 31), (522, 6)], rtree_2_30_path) \<and>
   leaves_r rtree_2_30_path = leaves_r rtree_2_30 \<and>
   take 4 (hashes_r rtree_2_30_path) = take 4 (hashes_r rtree_2_30) \<and>
   shape_r rtree_2_30_path \<and> hashed_r test_primitives rtree_2_30_path \<and>
   get_hash_path_rehash test_primitives rtree_2_30_path 0
     = Inr ([(214, 31), (522, 6)], rtree_2_30_path)"
proof -
  have ts: "total_size_r rtree_2_30 = 4" by (simp add: rtree_2_30_def)
  have a: "leaves_r rtree_2_30_path = leaves_r rtree_2_30"
      "take 4 (hashes_r rtree_2_30_path) = take 4 (hashes_r rtree_2_30)"
    using hash_path_frame [where t = tree_2_30 and idx = 0 and p = "[(214, 31), (522, 6)]"
            and t' = tree_2_30 and P = test_primitives and s = rtree_2_30
            and q = "[(214, 31), (522, 6)]" and s' = rtree_2_30_path]
      tree_2_30_get_path rtree_2_30_get_path ts
    by simp_all
  show ?thesis
    using a tree_2_30_get_path rtree_2_30_get_path rtree_2_30_path_hashed
      rtree_2_30_path_get_path
    by simp
qed

text \<open>
  C8 as stated fails in the full-rehash implementation: after \<^verbatim>\<open>update_element(30)\<close> on the
  new tree of depth 2, \<^verbatim>\<open>get_hash_path(0)\<close> replaces the stored node 4 (6 by 522) and the
  cached root (74 by 2654).
\<close>

theorem hash_path_frame_counterexample:
  "IndexedMerkleTree_rehash test_primitives 2 = Inr rtree_2 \<and>
   update_element_rehash test_primitives rtree_2 30 = Some (Inr (0, rtree_2_30)) \<and>
   get_hash_path_rehash test_primitives rtree_2_30 0
     = Inr ([(214, 31), (522, 6)], rtree_2_30_path) \<and>
   hashes_r rtree_2_30 = [214, 31, 1, 1, 6, 6] \<and>
   hashes_r rtree_2_30_path = [214, 31, 1, 1, 522, 6] \<and>
   root_r rtree_2_30 = 74 \<and> root_r rtree_2_30_path = 2654 \<and>
   rtree_2_30_path \<noteq> rtree_2_30"
  using construct_rtree_2 rtree_2_insert_30 rtree_2_30_get_path
  by (simp add: rtree_2_30_def rtree_2_30_path_def)

subsection \<open>C9: an index out of range\<close>

text \<open>
  C9, amended. \<^verbatim>\<open>get_hash_path\<close> has no range check, in either implementation. On every
  tree reached from a new tree by insertions, an index below \<open>total_size\<close> gives \<open>depth\<close>
  pairs, all read inside \<^verbatim>\<open>hashes_\<close>; for an index from \<open>total_size\<close> on, the function
  reads \<^verbatim>\<open>hashes_\<close> at the index as given and, at the latest for the last pair, beyond the
  end of the vector, which the model records as \<open>OutOfBounds\<close>.
\<close>

theorem hash_path_range:
  assumes c: "IndexedMerkleTree P d = Inr t0" and u: "update_elements P t0 vs = Some (Inr t)"
  shows "(\<forall>idx < total_size t. \<exists>p. get_hash_path t idx = Inr (p, t) \<and> length p = d) \<and>
         (\<forall>idx. total_size t \<le> idx \<and> idx < 2 ^ 64
                \<longrightarrow> get_hash_path t idx = Inl OutOfBounds) \<and>
         (\<exists>s0 s. IndexedMerkleTree_rehash P d = Inr s0 \<and>
            update_elements_rehash P s0 vs = Some (Inr s) \<and> total_size_r s = total_size t \<and>
            (\<forall>idx < total_size t. \<exists>p s'. get_hash_path_rehash P s idx = Inr (p, s') \<and>
                                         length p = d) \<and>
            (\<forall>idx. total_size t \<le> idx \<and> idx < 2 ^ 64
                   \<longrightarrow> get_hash_path_rehash P s idx = Inl OutOfBounds))"
proof -
  have r: "shape t" "hashed P t" "depth t = d"
    using reachable_hashed [OF c u] by simp_all
  have a: "\<forall>idx < total_size t. \<exists>p. get_hash_path t idx = Inr (p, t) \<and> length p = d"
    using get_hash_path_ok [OF r(1)] r(3) by (simp add: length_path_from)
  have b: "\<forall>idx. total_size t \<le> idx \<and> idx < 2 ^ 64 \<longrightarrow> get_hash_path t idx = Inl OutOfBounds"
    using get_hash_path_oob [OF r(1)] by simp
  obtain s0 s where s: "IndexedMerkleTree_rehash P d = Inr s0"
      "update_elements_rehash P s0 vs = Some (Inr s)" "sim t s" "shape_r s" "leaf_level_r P s"
    using rehash_simulation [OF c u] by blast
  note g = get_hash_path_rehash_sim [OF r(1,2) s(3,4,5)]
  have a': "\<forall>idx < total_size t. \<exists>p s'. get_hash_path_rehash P s idx = Inr (p, s') \<and>
                                         length p = d"
    using a by (auto simp: g)
  have b': "\<forall>idx. total_size t \<le> idx \<and> idx < 2 ^ 64
                   \<longrightarrow> get_hash_path_rehash P s idx = Inl OutOfBounds"
    using b by (simp add: g)
  have "total_size_r s = total_size t" using s(3) by (simp add: sim_def)
  then show ?thesis using a b a' b' s(1,2) by blast
qed

theorem hash_path_range_witness:
  "IndexedMerkleTree test_primitives 2 = Inr tree_2 \<and>
   update_elements test_primitives tree_2 [30] = Some (Inr tree_2_30) \<and>
   (\<exists>p. get_hash_path tree_2_30 3 = Inr (p, tree_2_30) \<and> length p = 2) \<and>
   get_hash_path tree_2_30 4 = Inl OutOfBounds \<and>
   (\<exists>s0 s. IndexedMerkleTree_rehash test_primitives 2 = Inr s0 \<and>
      update_elements_rehash test_primitives s0 [30] = Some (Inr s) \<and>
      (\<exists>p s'. get_hash_path_rehash test_primitives s 3 = Inr (p, s') \<and> length p = 2) \<and>
      get_hash_path_rehash test_primitives s 4 = Inl OutOfBounds)"
proof -
  have ts: "total_size tree_2_30 = 4" by (simp add: tree_defs)
  from hash_path_range [OF construct_tree_2 tree_2_inserts_30]
  obtain s0 s where a: "\<forall>idx < 4. \<exists>p. get_hash_path tree_2_30 idx = Inr (p, tree_2_30) \<and> length p = 2"
    and b: "\<forall>idx. 4 \<le> idx \<and> idx < 2 ^ 64 \<longrightarrow> get_hash_path tree_2_30 idx = Inl OutOfBounds"
    and s: "IndexedMerkleTree_rehash test_primitives 2 = Inr s0"
      "update_elements_rehash test_primitives s0 [30] = Some (Inr s)"
    and a': "\<forall>idx < 4. \<exists>p s'. get_hash_path_rehash test_primitives s idx = Inr (p, s') \<and>
                                         length p = 2"
    and b': "\<forall>idx. 4 \<le> idx \<and> idx < 2 ^ 64
                   \<longrightarrow> get_hash_path_rehash test_primitives s idx = Inl OutOfBounds"
    unfolding ts by blast
  have "\<exists>p. get_hash_path tree_2_30 3 = Inr (p, tree_2_30) \<and> length p = 2"
    using a by simp
  moreover have "get_hash_path tree_2_30 4 = Inl OutOfBounds" using b by simp
  moreover have "\<exists>p s'. get_hash_path_rehash test_primitives s 3 = Inr (p, s') \<and> length p = 2"
    using a' by simp
  moreover have "get_hash_path_rehash test_primitives s 4 = Inl OutOfBounds" using b' by simp
  ultimately show ?thesis using construct_tree_2 tree_2_inserts_30 s by blast
qed

text \<open>
  C9 as stated fails: the query for index 8 on the new tree of depth 3 (\<open>total_size = 8\<close>,
  14 stored hashes) is not rejected before it reads. It reads \<^verbatim>\<open>hashes_[8]\<close> and
  \<^verbatim>\<open>hashes_[9]\<close> into the first pair and \<^verbatim>\<open>hashes_[12]\<close> and \<^verbatim>\<open>hashes_[13]\<close> into the second,
  all of them internal nodes, and for the third pair it reads at the indices 14 and 15,
  beyond the end of the vector.
\<close>

theorem hash_path_range_counterexample:
  "IndexedMerkleTree test_primitives 3 = Inr tree_3 \<and>
   total_size tree_3 = 8 \<and> length (hashes tree_3) = 14 \<and>
   pair_at (hashes tree_3) 8 = Inr (hashes tree_3 ! 8, hashes tree_3 ! 9) \<and>
   path_loop (hashes tree_3) (level_str_idxs tree_3) [1] 8 [(6, 6), (0, 0), (0, 0)]
     = Inr [(6, 6), (hashes tree_3 ! 12, hashes tree_3 ! 13), (0, 0)] \<and>
   pair_at (hashes tree_3) 14 = Inl OutOfBounds \<and>
   get_hash_path tree_3 8 = Inl OutOfBounds"
proof -
  have "IndexedMerkleTree test_primitives 3 = Inr tree_3"
    by (simp add: eval_defs tree_3_def cong: eval_congs)
  moreover have "get_hash_path tree_3 8 = Inl OutOfBounds"
    by (simp add: eval_defs tree_3_def cong: eval_congs)
  moreover have "path_loop (hashes tree_3) (level_str_idxs tree_3) [1] 8 [(6, 6), (0, 0), (0, 0)]
     = Inr [(6, 6), (hashes tree_3 ! 12, hashes tree_3 ! 13), (0, 0)]"
    by (simp add: eval_defs tree_3_def cong: eval_congs)
  moreover have "pair_at (hashes tree_3) 8 = Inr (hashes tree_3 ! 8, hashes tree_3 ! 9)"
    "pair_at (hashes tree_3) 14 = Inl OutOfBounds"
    "total_size tree_3 = 8" "length (hashes tree_3) = 14"
    by (simp_all add: eval_defs tree_3_def cong: eval_congs)
  ultimately show ?thesis by simp
qed

subsection \<open>C10: comparison on the low 64 bits\<close>

text \<open>
  C10, amended. The decision of the loop of \<^verbatim>\<open>update_element\<close>, duplicate or the index of the
  predecessor, depends on the candidate value only through its low 64 bits, and on the
  stored \<^verbatim>\<open>nextValue\<close> fields only through their low 64 bits and whether each is exactly
  zero; in both implementations.
\<close>

theorem insert_decision_low64:
  assumes "to_uint64 val = to_uint64 val'" "same_links ls ls'"
  shows "map_option (map_sum id decision) (insert_loop ls val cur idx)
           = map_option (map_sum id decision) (insert_loop ls' val' cur' idx) \<and>
         map_option (map_sum id decision) (insert_loop_rehash ls val cur idx)
           = map_option (map_sum id decision) (insert_loop_rehash ls' val' cur' idx)"
proof -
  have a: "map_option (map_sum id decision) (insert_loop ls val cur idx)
           = map_option (map_sum id decision) (insert_loop ls' val' cur' idx)"
    by (rule decision_low64 [OF assms])
  then have "map_option (map_sum id decision) (insert_loop_rehash ls val cur idx)
           = map_option (map_sum id decision) (insert_loop_rehash ls' val' cur' idx)"
    by (simp only: insert_loop_rehash_eq)
  then show ?thesis using a by simp
qed

theorem insert_decision_low64_witness:
  "to_uint64 30 = to_uint64 18446744073709551646 \<and>
   same_links (leaves tree_2_30) (leaves tree_2_30) \<and>
   map_option (map_sum id decision) (insert_loop (leaves tree_2_30) 18446744073709551646 2 0)
     = Some (Inr None) \<and>
   map_option (map_sum id decision) (insert_loop (leaves tree_2_30) 18446744073709551621 2 0)
     = Some (Inr (Some 0)) \<and>
   map_option (map_sum id decision)
       (insert_loop_rehash (leaves tree_2_30) 18446744073709551646 2 0)
     = Some (Inr None) \<and>
   map_option (map_sum id decision)
       (insert_loop_rehash (leaves tree_2_30) 18446744073709551621 2 0)
     = Some (Inr (Some 0))"
proof -
  have a: "to_uint64 30 = to_uint64 18446744073709551646"
    and b: "to_uint64 5 = to_uint64 18446744073709551621" by (simp_all add: to_uint64_def)
  have c: "same_links (leaves tree_2_30) (leaves tree_2_30)"
    by (simp add: same_links_def tree_2_30_leaves)
  have d: "map_option (map_sum id decision) (insert_loop (leaves tree_2_30) 30 2 0) = Some (Inr None)"
    by (simp add: eval_defs tree_2_30_leaves cong: eval_congs)
  have e: "map_option (map_sum id decision) (insert_loop (leaves tree_2_30) 5 2 0)
      = Some (Inr (Some 0))"
    by (simp add: eval_defs tree_2_30_leaves cong: eval_congs)
  have d': "map_option (map_sum id decision) (insert_loop_rehash (leaves tree_2_30) 30 2 0)
      = Some (Inr None)"
    using d by (simp only: insert_loop_rehash_eq)
  have e': "map_option (map_sum id decision) (insert_loop_rehash (leaves tree_2_30) 5 2 0)
      = Some (Inr (Some 0))"
    using e by (simp only: insert_loop_rehash_eq)
  note w = insert_decision_low64 [OF a c, of 2 0 2] and v = insert_decision_low64 [OF b c, of 2 0 2]
  have "map_option (map_sum id decision)
          (insert_loop (leaves tree_2_30) 18446744073709551646 2 0) = Some (Inr None)"
    using w [THEN conjunct1] d by simp
  moreover have "map_option (map_sum id decision)
          (insert_loop (leaves tree_2_30) 18446744073709551621 2 0) = Some (Inr (Some 0))"
    using v [THEN conjunct1] e by simp
  moreover have "map_option (map_sum id decision)
          (insert_loop_rehash (leaves tree_2_30) 18446744073709551646 2 0) = Some (Inr None)"
    using w [THEN conjunct2] d' by simp
  moreover have "map_option (map_sum id decision)
          (insert_loop_rehash (leaves tree_2_30) 18446744073709551621 2 0) = Some (Inr (Some 0))"
    using v [THEN conjunct2] e' by simp
  ultimately show ?thesis using a c by blast
qed

text \<open>
  C10 as stated fails. The two leaf vectors below are those of the trees of depth 2 after
  inserting 5 and \<open>2 ^ 64\<close>, and after inserting 5 and 0. Their \<^verbatim>\<open>nextValue\<close> fields agree
  in the low 64 bits and their \<^verbatim>\<open>nextIndex\<close> fields are equal, but the candidate 5 is a
  duplicate in the first and is inserted after leaf 0 in the second, and the candidate 7
  is inserted after leaf 1 in the first and after leaf 0 in the second.
\<close>

theorem insert_decision_counterexample:
  "map_option (map_sum id leaves)
     (update_elements test_primitives tree_2 [5, 18446744073709551616]) = Some (Inr leaves_5_big) \<and>
   map_option (map_sum id leaves)
     (update_elements test_primitives tree_2 [5, 0]) = Some (Inr leaves_5_0) \<and>
   map (\<lambda>l. to_uint64 (nextValue l)) leaves_5_big = map (\<lambda>l. to_uint64 (nextValue l)) leaves_5_0 \<and>
   map nextIndex leaves_5_big = map nextIndex leaves_5_0 \<and>
   map_option (map_sum id decision) (insert_loop leaves_5_big 5 3 0) = Some (Inr None) \<and>
   map_option (map_sum id decision) (insert_loop leaves_5_0 5 3 0) = Some (Inr (Some 0)) \<and>
   map_option (map_sum id decision) (insert_loop leaves_5_big 7 3 0) = Some (Inr (Some 1)) \<and>
   map_option (map_sum id decision) (insert_loop leaves_5_0 7 3 0) = Some (Inr (Some 0))"
proof -
  have "map_option (map_sum id leaves)
     (update_elements test_primitives tree_2 [5, 18446744073709551616]) = Some (Inr leaves_5_big)"
    by (simp add: eval_defs tree_defs leaves_5_big_def cong: eval_congs)
  moreover have "map_option (map_sum id leaves)
     (update_elements test_primitives tree_2 [5, 0]) = Some (Inr leaves_5_0)"
    by (simp add: eval_defs tree_defs leaves_5_0_def cong: eval_congs)
  moreover have "map (\<lambda>l. to_uint64 (nextValue l)) leaves_5_big
      = map (\<lambda>l. to_uint64 (nextValue l)) leaves_5_0"
    "map nextIndex leaves_5_big = map nextIndex leaves_5_0"
    by (simp_all add: leaves_5_big_def leaves_5_0_def to_uint64_def)
  moreover have
    "map_option (map_sum id decision) (insert_loop leaves_5_big 5 3 0) = Some (Inr None)"
    "map_option (map_sum id decision) (insert_loop leaves_5_0 5 3 0) = Some (Inr (Some 0))"
    "map_option (map_sum id decision) (insert_loop leaves_5_big 7 3 0) = Some (Inr (Some 1))"
    "map_option (map_sum id decision) (insert_loop leaves_5_0 7 3 0) = Some (Inr (Some 0))"
    by (simp_all add: eval_defs leaves_5_big_def leaves_5_0_def cong: eval_congs)
  ultimately show ?thesis by simp
qed

end
